theory Spec2Isabelle
  imports Main "HOL-Library.Word" "HOL-Library.Log_Nat"
begin

section \<open>Numbers of the host language\<close>

text \<open>
  The script \<^verbatim>\<open>cli_backup.js\<close> computes with JavaScript Numbers, which are IEEE-754
  binary64 values. A finite Number is modelled by the rational it denotes; every
  arithmetic operation computes the exact rational result and rounds it with \<open>fl\<close> to the
  nearest value with a 53-bit significand, ties to even. The exponent range is not
  limited in the model: every value the script computes from a WAV header, a buffer length
  or a nanosecond clock lies far inside the normal range of binary64, so neither overflow
  nor gradual underflow occurs. NaN is \<open>None\<close>. Negative zero is identified with zero
  (the script never distinguishes them). Index arithmetic on integers (loop counters,
  byte offsets, array positions) stays below \<open>2 ^ 53\<close> and is therefore exact; it is
  written on \<open>nat\<close> and \<open>int\<close> directly.
\<close>

definition rne :: "rat \<Rightarrow> int" where
  "rne y = (let f = \<lfloor>y\<rfloor>; r = y - of_int f in
     if r < 1/2 then f else if 1/2 < r then f + 1 else if even f then f else f + 1)"

definition ilog2 :: "rat \<Rightarrow> int" where
  "ilog2 x = (case quotient_of x of (p, q) \<Rightarrow>
      let e0 = bitlen p - bitlen q in if 2 powi e0 \<le> x then e0 else e0 - 1)"

definition fl :: "rat \<Rightarrow> rat" where
  "fl x = (if x = 0 then 0 else
     let u = 2 powi (ilog2 \<bar>x\<bar> - 52) in of_int (rne (x / u)) * u)"

type_synonym jsnum = "rat option"

definition nan2 :: "(rat \<Rightarrow> rat \<Rightarrow> rat) \<Rightarrow> jsnum \<Rightarrow> jsnum \<Rightarrow> jsnum" where
  "nan2 f a b = (case a of None \<Rightarrow> None
                 | Some x \<Rightarrow> (case b of None \<Rightarrow> None | Some y \<Rightarrow> Some (fl (f x y))))"

definition js_add :: "jsnum \<Rightarrow> jsnum \<Rightarrow> jsnum" where
  "js_add = nan2 (+)"

definition js_mul :: "jsnum \<Rightarrow> jsnum \<Rightarrow> jsnum" where
  "js_mul = nan2 (*)"


text \<open>\<^verbatim>\<open>Math.round\<close> rounds to the nearest integer, ties towards plus infinity.\<close>

definition math_round :: "rat \<Rightarrow> int" where
  "math_round x = \<lfloor>x + 1/2\<rfloor>"

definition js_round :: "jsnum \<Rightarrow> jsnum" where
  "js_round a = map_option (\<lambda>x. of_int (math_round x)) a"

section \<open>Typed arrays and byte buffers\<close>

type_synonym int16 = "16 word"
type_synonym byte = "8 word"

datatype error = RangeError | SyntaxError | TypeError

text \<open>
  Reading an \<^verbatim>\<open>Int16Array\<close> outside its bounds gives \<^verbatim>\<open>undefined\<close> (\<open>None\<close>);
  writing outside its bounds is ignored. A Number stored into an \<^verbatim>\<open>Int16Array\<close> is
  truncated towards zero and wrapped modulo \<open>2 ^ 16\<close>; NaN is stored as 0.
\<close>

definition ta_get :: "int16 list \<Rightarrow> int \<Rightarrow> int option" where
  "ta_get a j = (if 0 \<le> j \<and> j < int (length a) then Some (sint (a ! nat j)) else None)"

definition ta_put :: "int16 list \<Rightarrow> int \<Rightarrow> int16 \<Rightarrow> int16 list" where
  "ta_put a j v = (if 0 \<le> j \<and> j < int (length a) then a[nat j := v] else a)"

definition to_int16 :: "jsnum \<Rightarrow> int16" where
  "to_int16 a = (case a of None \<Rightarrow> 0
                 | Some x \<Rightarrow> word_of_int (if 0 \<le> x then \<lfloor>x\<rfloor> else \<lceil>x\<rceil>))"

text \<open>Clamping to the signed 16-bit range: \<^verbatim>\<open>Math.max(-32768, Math.min(32767, v))\<close>.\<close>

definition clamp16 :: "int \<Rightarrow> int" where
  "clamp16 v = max (- 32768) (min 32767 v)"

definition to_number :: "int option \<Rightarrow> jsnum" where
  "to_number v = map_option of_int v"





text \<open>\<^verbatim>\<open>buf.writeInt16LE(value, offset)\<close> for a value already in the 16-bit range.\<close>

definition writeInt16LE :: "byte list \<Rightarrow> int16 \<Rightarrow> nat \<Rightarrow> byte list" where
  "writeInt16LE buf value offset = (buf[offset := ucast value])[offset + 1 := ucast (drop_bit 8 value)]"

text \<open>
  \<^verbatim>\<open>new Int16Array(arrayBuffer)\<close> views the bytes as little-endian 16-bit integers and
  throws a RangeError when the byte length is odd.
\<close>

fun int16_of_bytes :: "byte list \<Rightarrow> int16 list" where
  "int16_of_bytes (lo # hi # rest) = word_cat hi lo # int16_of_bytes rest"
| "int16_of_bytes _ = []"

definition int16_view :: "byte list \<Rightarrow> error + int16 list" where
  "int16_view buf = (if even (length buf) then Inr (int16_of_bytes buf) else Inl RangeError)"

section \<open>Downmix to mono (lines 58--75)\<close>











section \<open>Resampling by linear interpolation (lines 77--93)\<close>

definition targetRate :: nat where
  "targetRate = 48000"

definition interpolate :: "rat \<Rightarrow> int16 list \<Rightarrow> nat \<Rightarrow> jsnum" where
  "interpolate ratio samples i =
     (let idx = fl (of_nat i / ratio);
          i0 = \<lfloor>idx\<rfloor>;
          i1 = min (i0 + 1) (int (length samples) - 1);
          frac = fl (idx - of_int i0)
      in js_round (js_add (js_mul (to_number (ta_get samples i0)) (Some (fl (1 - frac))))
                          (js_mul (to_number (ta_get samples i1)) (Some frac))))"

definition ratio_of :: "nat \<Rightarrow> nat \<Rightarrow> rat" where
  "ratio_of target origSampleRate = fl (of_nat target / of_nat origSampleRate)"

definition newLen_of :: "rat \<Rightarrow> nat \<Rightarrow> nat" where
  "newLen_of ratio len = nat \<lfloor>fl (of_nat len * ratio)\<rfloor>"

text \<open>
  With a source rate of 0 the ratio is Infinity: the new length is NaN for an empty input
  (an empty array, no iteration) and Infinity otherwise (the allocation throws).
\<close>

definition resample_to :: "nat \<Rightarrow> nat \<Rightarrow> int16 list \<Rightarrow> error + int16 list" where
  "resample_to target origSampleRate samples =
     (if origSampleRate \<noteq> target
      then (if origSampleRate = 0
            then (if samples = [] then Inr [] else Inl RangeError)
            else let ratio = ratio_of target origSampleRate;
                     newLen = newLen_of ratio (length samples)
                 in Inr (fold (\<lambda>i resampled.
                                  ta_put resampled (int i) (to_int16 (interpolate ratio samples i)))
                           [0..<newLen] (replicate newLen 0)))
      else Inr samples)"

definition resample :: "nat \<Rightarrow> int16 list \<Rightarrow> error + int16 list" where
  "resample origSampleRate samples = resample_to targetRate origSampleRate samples"

text \<open>
  The per-sample formula in the words of the specification, in exact arithmetic: the
  source position, its integer part and fraction, the two neighbouring input samples, the
  rounded interpolation, clamped to the signed 16-bit range.
\<close>

definition spec_sample :: "nat \<Rightarrow> nat \<Rightarrow> int16 list \<Rightarrow> nat \<Rightarrow> int" where
  "spec_sample target origSampleRate input i =
     (let ratio = (of_nat target / of_nat origSampleRate :: rat);
          idx = of_nat i / ratio;
          i0 = \<lfloor>idx\<rfloor>;
          i1 = min (i0 + 1) (int (length input) - 1);
          frac = idx - of_int i0
      in clamp16 (math_round (of_int (sint (input ! nat i0)) * (1 - frac)
                              + of_int (sint (input ! nat i1)) * frac)))"

text \<open>The interpolated value of that formula at a source position, before rounding.\<close>

definition interp_at :: "int16 list \<Rightarrow> rat \<Rightarrow> rat" where
  "interp_at input idx =
     (let i0 = \<lfloor>idx\<rfloor>;
          i1 = min (i0 + 1) (int (length input) - 1);
          frac = idx - of_int i0
      in of_int (sint (input ! nat i0)) * (1 - frac) + of_int (sint (input ! nat i1)) * frac)"

text \<open>
  The same formula with the result of every operation rounded to binary64, in the order
  in which the script evaluates it.
\<close>

definition spec_sample_binary64 :: "nat \<Rightarrow> nat \<Rightarrow> int16 list \<Rightarrow> nat \<Rightarrow> int" where
  "spec_sample_binary64 target origSampleRate input i =
     (let ratio = fl (of_nat target / of_nat origSampleRate);
          idx = fl (of_nat i / ratio);
          i0 = \<lfloor>idx\<rfloor>;
          i1 = min (i0 + 1) (int (length input) - 1);
          frac = fl (idx - of_int i0)
      in clamp16 (math_round (fl (fl (of_int (sint (input ! nat i0)) * fl (1 - frac))
                                  + fl (of_int (sint (input ! nat i1)) * frac)))))"

section \<open>The PCM buffer and the frame pacer (lines 95--103, 160--172)\<close>

definition inputPcm :: "int16 list \<Rightarrow> byte list" where
  "inputPcm resampled =
     fold (\<lambda>i buf. writeInt16LE buf (resampled ! i) (i * 2))
       [0..<length resampled] (replicate (length resampled * 2) 0)"

definition sampleRate :: nat where
  "sampleRate = targetRate"

definition frameSize :: nat where
  "frameSize = sampleRate div 100"

definition frameBytes :: nat where
  "frameBytes = frameSize * 2"

text \<open>
  The pacing loop. The frames handed to \<^verbatim>\<open>source.onData\<close> are collected in the order
  they are sent; the 10 ms pause after each frame is not part of the model.
\<close>

function pace :: "byte list \<Rightarrow> nat \<Rightarrow> int16 list list" where
  "pace pcm off =
     (if off < length pcm
      then (let chunk = take frameBytes (drop off pcm);
                chunk = (if length chunk < frameBytes
                         then chunk @ replicate (frameBytes - length chunk) 0 else chunk);
                frame = take frameSize (int16_of_bytes chunk)
            in frame # pace pcm (off + frameBytes))
      else [])"
  by pat_completeness auto
termination
  by (relation "measure (\<lambda>(pcm, off). length pcm - off)")
     (auto simp: frameBytes_def frameSize_def sampleRate_def targetRate_def)

declare pace.simps [simp del]

section \<open>Completion watcher (lines 138--142)\<close>

datatype json = JNull | JBool bool | JNum rat | JStr string
  | JArr "json list" | JObj "(string \<times> json) list"

text \<open>
  \<^verbatim>\<open>m.type\<close>: reading a property of \<^verbatim>\<open>null\<close> throws a TypeError; a value that has no
  such property gives \<^verbatim>\<open>undefined\<close> (\<open>None\<close>). In a parsed object the last of several
  equal keys wins.
\<close>

fun get_type :: "json \<Rightarrow> error + json option" where
  "get_type JNull = Inl TypeError"
| "get_type (JObj kvs) = Inr (map_of (rev kvs) ''type'')"
| "get_type _ = Inr None"

text \<open>
  The handler \<^verbatim>\<open>dc.onmessage\<close>. Its argument is the result of \<^verbatim>\<open>JSON.parse(e.data)\<close>:
  \<open>None\<close> when the text is not JSON (a SyntaxError is thrown), the parsed value
  otherwise. The state is the flag \<^verbatim>\<open>done\<close>.
\<close>

definition onmessage :: "json option \<Rightarrow> bool \<Rightarrow> error + bool" where
  "onmessage parsed done =
     (case parsed of None \<Rightarrow> Inl SyntaxError
      | Some m \<Rightarrow> (case get_type m of Inl e \<Rightarrow> Inl e
                   | Inr t \<Rightarrow> Inr (if t = Some (JStr ''response.done'') then True else done)))"

fun watcher :: "json option list \<Rightarrow> bool \<Rightarrow> error + bool" where
  "watcher [] done = Inr done"
| "watcher (p # ps) done =
     (case onmessage p done of Inl e \<Rightarrow> Inl e | Inr done' \<Rightarrow> watcher ps done')"

section \<open>Timeline mixer (lines 181--202)\<close>

text \<open>A captured buffer is the pair of its samples and its arrival time in nanoseconds.\<close>

type_synonym gptBuffer = "int16 list \<times> int"

definition offset_of :: "int \<Rightarrow> int \<Rightarrow> int" where
  "offset_of startTime time =
     (let delta = fl (fl (of_int (time - startTime)) / 1000000)
      in math_round (fl (fl (delta * of_nat sampleRate) / 1000)))"

definition offsets :: "int \<Rightarrow> gptBuffer list \<Rightarrow> int list" where
  "offsets startTime gptBuffers = map (\<lambda>(samples, time). offset_of startTime time) gptBuffers"

text \<open>The body of the inner loop (lines 198--200) and the loop over one buffer.\<close>

definition mix_step :: "int \<Rightarrow> int16 list \<Rightarrow> nat \<Rightarrow> int16 list \<Rightarrow> int16 list" where
  "mix_step pos samples i out =
     (let j = pos + int i;
          summed = (case ta_get out j of None \<Rightarrow> 0 | Some v \<Rightarrow> v) + sint (samples ! i)
      in ta_put out j (word_of_int (clamp16 summed)))"

definition mix_buffer :: "int \<Rightarrow> int16 list \<Rightarrow> int16 list \<Rightarrow> int16 list" where
  "mix_buffer pos samples out = fold (mix_step pos samples) [0..<length samples] out"

definition maxIndex :: "int16 list \<Rightarrow> gptBuffer list \<Rightarrow> int list \<Rightarrow> int" where
  "maxIndex inputSamples gptBuffers offs =
     fold (\<lambda>((samples, time), pos) m. max m (pos + int (length samples)))
       (zip gptBuffers offs) (int (length inputSamples))"

definition outputSamples :: "byte list \<Rightarrow> int \<Rightarrow> gptBuffer list \<Rightarrow> error + int16 list" where
  "outputSamples pcm startTime gptBuffers =
     (case int16_view pcm of Inl e \<Rightarrow> Inl e
      | Inr inputSamples \<Rightarrow>
         (let offs = offsets startTime gptBuffers;
              m = maxIndex inputSamples gptBuffers offs;
              out = inputSamples @ drop (length inputSamples) (replicate (nat m) 0)
          in Inr (fold (\<lambda>((samples, time), pos) out. mix_buffer pos samples out)
                    (zip gptBuffers offs) out)))"

text \<open>
  The mixer in the words of the specification. The samples that the captured buffers
  contribute at the output index \<open>j\<close>, in the order of the buffers: the buffer placed at
  \<open>offsetSamples\<close> contributes its sample with local index \<open>k\<close> at \<open>offsetSamples + k\<close>.
\<close>

fun contributions :: "int \<Rightarrow> nat \<Rightarrow> gptBuffer list \<Rightarrow> int list" where
  "contributions startTime j [] = []"
| "contributions startTime j ((samples, time) # bs) =
     (let pos = offset_of startTime time
      in if pos \<le> int j \<and> int j < pos + int (length samples)
         then [sint (samples ! nat (int j - pos))] else [])
     @ contributions startTime j bs"

text \<open>Adding the contributions one after the other, saturating after each addition.\<close>

definition saturating_sum :: "int list \<Rightarrow> int \<Rightarrow> int" where
  "saturating_sum cs v = fold (\<lambda>c v. clamp16 (v + c)) cs v"

text \<open>
  The length of the mix buffer: the greatest of the input length and the ends
  \<open>offsetSamples + length\<close> of the captured buffers.
\<close>

definition maxIndex_spec :: "int \<Rightarrow> nat \<Rightarrow> gptBuffer list \<Rightarrow> int" where
  "maxIndex_spec startTime len gptBuffers =
     Max (insert (int len)
            ((\<lambda>(samples, time). offset_of startTime time + int (length samples)) ` set gptBuffers))"

section \<open>Rounding to binary64: the facts the proofs use\<close>

lemma rne_of_int: "rne (of_int n) = n"
  by (simp add: rne_def)

lemma rne_err: "\<bar>of_int (rne y) - y\<bar> \<le> 1/2"
  unfolding rne_def Let_def by (auto simp: abs_if) linarith+

text \<open>\<open>ilog2\<close> is the binary exponent: \<open>2 powi ilog2 x \<le> x < 2 powi (ilog2 x + 1)\<close>.\<close>

lemma ilog2_le:
  assumes "0 < x"
  shows "2 powi (ilog2 x) \<le> x"
proof -
  obtain p q where pq: "quotient_of x = (p, q)" by (cases "quotient_of x")
  have q: "0 < q" using quotient_of_denom_pos [OF pq] .
  have x: "x = of_int p / of_int q" using quotient_of_div [OF pq] .
  have p: "0 < p" using assms q x by (simp add: zero_less_divide_iff)
  let ?e = "bitlen p - bitlen q"
  show ?thesis
  proof (cases "2 powi ?e \<le> x")
    case True
    then show ?thesis by (simp add: ilog2_def pq)
  next
    case False
    have lp: "(2::int) ^ nat (bitlen p - 1) \<le> p" using bitlen_bounds [OF p] by simp
    have uq: "q < 2 ^ nat (bitlen q)" using bitlen_bounds [OF q] by simp
    have bp: "1 \<le> bitlen p" using p by (simp add: bitlen_def floorlog_def)
    have bq: "0 \<le> bitlen q" by (rule bitlen_nonneg)
    have lp': "(2::rat) powi (bitlen p - 1) \<le> of_int p"
    proof -
      have "(of_int ((2::int) ^ nat (bitlen p - 1)) :: rat) \<le> of_int p"
        using lp by (simp only: of_int_le_iff)
      then show ?thesis using bp by (simp add: power_int_def)
    qed
    have uq': "(of_int q :: rat) \<le> 2 powi (bitlen q)"
    proof -
      have "(of_int q :: rat) \<le> of_int ((2::int) ^ nat (bitlen q))"
        using uq by simp
      then show ?thesis using bq by (simp add: power_int_def)
    qed
    have "(2::rat) powi (?e - 1) = 2 powi (bitlen p - 1) / 2 powi (bitlen q)"
      by (simp add: power_int_diff)
    also have "\<dots> \<le> of_int p / 2 powi (bitlen q)"
      using lp' by (simp add: divide_right_mono)
    also have "\<dots> \<le> of_int p / of_int q"
      using uq' p q by (intro frac_le) simp_all
    finally have "(2::rat) powi (?e - 1) \<le> x" by (simp only: x)
    then show ?thesis using False by (simp add: ilog2_def pq)
  qed
qed

lemma ilog2_gt:
  assumes "0 < x"
  shows "x < 2 powi (ilog2 x + 1)"
proof -
  obtain p q where pq: "quotient_of x = (p, q)" by (cases "quotient_of x")
  have q: "0 < q" using quotient_of_denom_pos [OF pq] .
  have x: "x = of_int p / of_int q" using quotient_of_div [OF pq] .
  have p: "0 < p" using assms q x by (simp add: zero_less_divide_iff)
  let ?e = "bitlen p - bitlen q"
  show ?thesis
  proof (cases "2 powi ?e \<le> x")
    case False
    then show ?thesis by (simp add: ilog2_def pq)
  next
    case True
    have up: "p < 2 ^ nat (bitlen p)" using bitlen_bounds [OF p] by simp
    have lq: "(2::int) ^ nat (bitlen q - 1) \<le> q" using bitlen_bounds [OF q] by simp
    have bq: "1 \<le> bitlen q" using q by (simp add: bitlen_def floorlog_def)
    have bp: "0 \<le> bitlen p" by (rule bitlen_nonneg)
    have up': "(of_int p :: rat) < 2 powi (bitlen p)"
    proof -
      have "(of_int p :: rat) < of_int ((2::int) ^ nat (bitlen p))"
        using up by (simp only: of_int_less_iff)
      then show ?thesis using bp by (simp add: power_int_def)
    qed
    have lq': "(2::rat) powi (bitlen q - 1) \<le> of_int q"
    proof -
      have "(of_int ((2::int) ^ nat (bitlen q - 1)) :: rat) \<le> of_int q"
        using lq by (simp only: of_int_le_iff)
      then show ?thesis using bq by (simp add: power_int_def)
    qed
    have pos: "(0::rat) < 2 powi (bitlen q - 1)" by simp
    have "of_int p / of_int q < 2 powi (bitlen p) / (of_int q :: rat)"
      using up' q by (simp add: divide_strict_right_mono)
    also have "\<dots> \<le> 2 powi (bitlen p) / 2 powi (bitlen q - 1)"
      using lq' pos by (intro frac_le) simp_all
    also have "\<dots> = 2 powi (?e + 1)"
      by (simp add: power_int_diff power_int_add)
    finally have "x < 2 powi (?e + 1)" by (simp only: x)
    then show ?thesis using True by (simp add: ilog2_def pq)
  qed
qed

text \<open>The relative error of one rounding is at most \<open>2 ^ - 53\<close>.\<close>

lemma fl_err: "\<bar>fl x - x\<bar> \<le> \<bar>x\<bar> / 2 ^ 53"
proof (cases "x = 0")
  case True
  then show ?thesis by (simp add: fl_def)
next
  case False
  define e where "e = ilog2 \<bar>x\<bar>"
  define u :: rat where "u = 2 powi (e - 52)"
  have u: "0 < u" by (simp add: u_def)
  have fl: "fl x = of_int (rne (x / u)) * u"
    using False by (simp add: fl_def e_def u_def Let_def)
  have "fl x - x = (of_int (rne (x / u)) - x / u) * u"
    using u by (simp add: fl field_simps)
  then have "\<bar>fl x - x\<bar> = \<bar>of_int (rne (x / u)) - x / u\<bar> * u"
    using u by (simp add: abs_mult)
  also have "\<dots> \<le> (1/2) * u"
    using rne_err [of "x / u"] u by (intro mult_right_mono) simp_all
  also have "(1/2) * u = 2 powi e / 2 ^ 53"
    by (simp add: u_def power_int_diff)
  also have "\<dots> \<le> \<bar>x\<bar> / 2 ^ 53"
    using ilog2_le [of "\<bar>x\<bar>"] False by (simp add: e_def divide_right_mono)
  finally show ?thesis .
qed

text \<open>A value with a significand below \<open>2 ^ 53\<close> is not changed by rounding.\<close>

lemma fl_exact:
  assumes m: "\<bar>m\<bar> < 2 ^ 53"
  shows "fl (of_int m * 2 powi k) = of_int m * 2 powi k"
proof (cases "m = 0")
  case True
  then show ?thesis by (simp add: fl_def)
next
  case False
  define x :: rat where "x = of_int m * 2 powi k"
  define e where "e = ilog2 \<bar>x\<bar>"
  define u :: rat where "u = 2 powi (e - 52)"
  have x0: "x \<noteq> 0" using False by (simp add: x_def)
  have ax: "\<bar>x\<bar> = of_int \<bar>m\<bar> * 2 powi k" by (simp add: x_def abs_mult)
  have "(of_int \<bar>m\<bar> :: rat) < of_int (2 ^ 53)" using m by (simp only: of_int_less_iff)
  then have "\<bar>x\<bar> < 2 ^ 53 * 2 powi k"
    unfolding ax by (intro mult_strict_right_mono) simp_all
  also have "\<dots> = 2 powi (53 + k)" by (simp add: power_int_add)
  finally have "2 powi e < (2::rat) powi (53 + k)"
    using ilog2_le [of "\<bar>x\<bar>"] x0 by (simp add: e_def)
  then have e: "e < 53 + k"
    using power_int_increasing [of "53 + k" e "2::rat"] by (cases "e < 53 + k") simp_all
  define d where "d = nat (k - e + 52)"
  have d: "k - (e - 52) = int d" using e by (simp add: d_def)
  have "x / u = of_int m * 2 powi (k - (e - 52))"
    by (simp add: x_def u_def power_int_diff)
  also have "\<dots> = of_int (m * 2 ^ d)" by (simp add: d)
  finally have "of_int (rne (x / u)) * u = x / u * u" by (simp only: rne_of_int)
  also have "\<dots> = x" by (simp add: u_def)
  finally have "fl x = x" using x0 by (simp add: fl_def e_def u_def Let_def)
  then show ?thesis by (simp add: x_def)
qed

lemma fl_of_int: "\<bar>m\<bar> < 2 ^ 53 \<Longrightarrow> fl (of_int m) = of_int m"
  using fl_exact [of m 0] by simp

lemma fl_nonneg: "0 \<le> x \<Longrightarrow> 0 \<le> fl x"
proof -
  assume x: "0 \<le> x"
  have "\<bar>x\<bar> / 2 ^ 53 \<le> x" using x by (simp add: field_simps)
  then show ?thesis using fl_err [of x] by linarith
qed

lemma fl_pos: "0 < x \<Longrightarrow> 0 < fl x"
proof -
  assume x: "0 < x"
  have "\<bar>x\<bar> / 2 ^ 53 < x" using x by (simp add: field_simps)
  then show ?thesis using fl_err [of x] by linarith
qed

lemma fl_of_nat: "n < 2 ^ 53 \<Longrightarrow> fl (of_nat n) = of_nat n"
  using fl_of_int [of "int n"] by simp

lemma rne_ge:
  assumes "of_int N \<le> y"
  shows "N \<le> rne y"
proof -
  have f: "N \<le> \<lfloor>y\<rfloor>" using assms by (simp add: le_floor_iff)
  show ?thesis using f unfolding rne_def Let_def by auto
qed

text \<open>Rounding does not cross an integer below \<open>2 ^ 53\<close>.\<close>

lemma fl_ge_int:
  assumes m: "of_int m \<le> x" and x0: "0 < x" and x53: "x < 2 ^ 53"
  shows "of_int m \<le> fl x"
proof -
  define e where "e = ilog2 \<bar>x\<bar>"
  define u :: rat where "u = 2 powi (e - 52)"
  have ax: "\<bar>x\<bar> = x" using x0 by simp
  have "2 powi e \<le> x" using ilog2_le [of x] x0 by (simp add: e_def ax)
  then have "2 powi e < (2::rat) powi 53" using x53 by simp
  then have e: "e < 53"
    using power_int_increasing [of 53 e "2::rat"] by (cases "e < 53") simp_all
  define d where "d = nat (52 - e)"
  have d: "52 - e = int d" using e by (simp add: d_def)
  have u: "u = 1 / 2 ^ d"
  proof -
    have "u = 2 powi (- (52 - e))" by (simp add: u_def)
    also have "\<dots> = 1 / 2 ^ d" unfolding d by (simp add: power_int_minus field_simps)
    finally show ?thesis .
  qed
  have "of_int (m * 2 ^ d) = of_int m * (2::rat) ^ d" by simp
  also have "\<dots> \<le> x * 2 ^ d" using m by (intro mult_right_mono) simp_all
  also have "\<dots> = x / u" by (simp add: u)
  finally have "m * 2 ^ d \<le> rne (x / u)" by (rule rne_ge)
  then have "(of_int (m * 2 ^ d) :: rat) \<le> of_int (rne (x / u))" by (simp only: of_int_le_iff)
  then have a: "of_int (m * 2 ^ d) * u \<le> of_int (rne (x / u)) * u"
    by (intro mult_right_mono) (simp_all add: u)
  have b: "of_int (m * 2 ^ d) * u = of_int m" by (simp add: u)
  have c: "fl x = of_int (rne (x / u)) * u"
    using x0 by (simp add: fl_def e_def u_def Let_def)
  from a have "of_int m \<le> of_int (rne (x / u)) * u" by (simp only: b)
  then show ?thesis by (simp only: c)
qed

lemma fl_zero: "fl 0 = 0"
  by (simp add: fl_def)

lemma fl_err_le:
  assumes "\<bar>x\<bar> \<le> B"
  shows "\<bar>fl x - x\<bar> \<le> B * (1 / 2 ^ 53)"
proof -
  have "\<bar>x\<bar> / 2 ^ 53 \<le> B / 2 ^ 53" using assms by (simp add: divide_right_mono)
  then show ?thesis using fl_err [of x] by simp
qed

section \<open>Little-endian bytes of 16-bit samples\<close>

lemma word_cat_split16: "word_cat (ucast (drop_bit 8 w) :: byte) (ucast w :: byte) = (w :: int16)"
  by (rule bit_word_eqI) (auto simp: bit_simps)

lemma update_pair:
  "length A = p \<Longrightarrow> ((A @ a # b # R)[p := lo])[Suc p := hi] = A @ lo # hi # R"
  by (simp add: list_update_append)

lemma inputPcm_fold:
  "k \<le> length xs \<Longrightarrow>
   fold (\<lambda>i buf. writeInt16LE buf (xs ! i) (i * 2)) [0..<k] (replicate (length xs * 2) 0)
   = concat (map (\<lambda>w. [ucast w, ucast (drop_bit 8 w)]) (take k xs))
     @ replicate ((length xs - k) * 2) 0"
proof (induction k)
  case 0
  then show ?case by simp
next
  case (Suc k)
  let ?A = "concat (map (\<lambda>w. [ucast w, ucast (drop_bit 8 w) :: byte]) (take k xs))"
  have len: "length ?A = k * 2"
    using Suc.prems by (induction k) (simp_all add: take_Suc_conv_app_nth)
  have rep: "replicate ((length xs - k) * 2) (0::byte)
               = 0 # 0 # replicate ((length xs - Suc k) * 2) 0"
    using Suc.prems by (simp add: Suc_diff_le flip: replicate_Suc)
  show ?case
    using Suc len
    by (simp add: writeInt16LE_def rep take_Suc_conv_app_nth update_pair)
qed

text \<open>The fill loop writes the two bytes of every sample, low byte first.\<close>

lemma inputPcm_eq: "inputPcm xs = concat (map (\<lambda>w. [ucast w, ucast (drop_bit 8 w)]) xs)"
  using inputPcm_fold [of "length xs" xs] by (simp add: inputPcm_def)

lemma inputPcm_Nil: "inputPcm [] = []"
  by (simp add: inputPcm_eq)

lemma inputPcm_append: "inputPcm (xs @ ys) = inputPcm xs @ inputPcm ys"
  by (simp add: inputPcm_eq)

lemma length_inputPcm: "length (inputPcm xs) = 2 * length xs"
  unfolding inputPcm_eq by (induction xs) simp_all

lemma int16_of_bytes_inputPcm:
  "int16_of_bytes (inputPcm xs @ bs) = xs @ int16_of_bytes bs"
  unfolding inputPcm_eq by (induction xs) (simp_all add: word_cat_split16)

lemma int16_view_inputPcm: "int16_view (inputPcm xs) = Inr xs"
  using int16_of_bytes_inputPcm [of xs "[]"] by (simp add: int16_view_def length_inputPcm)

section \<open>The mixing loop, index by index\<close>

lemma clamp16_range: "- 32768 \<le> clamp16 v \<and> clamp16 v \<le> 32767"
  by (simp add: clamp16_def)

lemma sint_int16_of_int:
  "- 32768 \<le> v \<Longrightarrow> v \<le> 32767 \<Longrightarrow> sint (word_of_int v :: int16) = v"
  by (simp add: sint_sbintrunc' signed_take_bit_int_eq_self)

lemma sint_clamp16: "sint (word_of_int (clamp16 v) :: int16) = clamp16 v"
  using clamp16_range [of v] by (simp add: sint_int16_of_int)

lemma sint_int16_range: "- 32768 \<le> sint (w :: int16) \<and> sint w \<le> 32767"
  using sint_range_size [of w] by (simp add: word_size)

lemma clamp16_sint: "clamp16 (sint (w :: int16)) = sint w"
  using sint_int16_range [of w] by (simp add: clamp16_def)


lemma mix_fold_nth:
  "length (fold (mix_step pos samples) [0..<n] out0) = length out0
   \<and> (\<forall>j < length out0.
        fold (mix_step pos samples) [0..<n] out0 ! j
        = (if pos \<le> int j \<and> int j < pos + int n
           then word_of_int (clamp16 (sint (out0 ! j) + sint (samples ! nat (int j - pos))))
           else out0 ! j))"
proof (induction n)
  case 0
  then show ?case by auto
next
  case (Suc n)
  define F where "F = fold (mix_step pos samples) [0..<n] out0"
  have len: "length F = length out0" using Suc by (simp add: F_def)
  have nth: "\<And>j. j < length out0 \<Longrightarrow> F ! j
        = (if pos \<le> int j \<and> int j < pos + int n
           then word_of_int (clamp16 (sint (out0 ! j) + sint (samples ! nat (int j - pos))))
           else out0 ! j)"
    using Suc by (simp add: F_def)
  have step: "fold (mix_step pos samples) [0..<Suc n] out0 = mix_step pos samples n F"
    by (simp add: F_def)
  show ?case
  proof (cases "0 \<le> pos + int n \<and> pos + int n < int (length out0)")
    case True
    define k where "k = nat (pos + int n)"
    have k: "int k = pos + int n" "k < length out0" using True by (auto simp: k_def)
    have Fk: "F ! k = out0 ! k" using nth [OF k(2)] k(1) by simp
    have eq: "mix_step pos samples n F
                = F[k := word_of_int (clamp16 (sint (out0 ! k) + sint (samples ! n)))]"
      using True len Fk by (simp add: mix_step_def ta_get_def ta_put_def k_def Let_def)
    have n: "nat (int k - pos) = n" using k(1) by simp
    show ?thesis
      unfolding step eq
    proof (intro conjI allI impI)
      show "length (F[k := word_of_int (clamp16 (sint (out0 ! k) + sint (samples ! n)))])
              = length out0"
        by (simp add: len)
    next
      fix j assume j: "j < length out0"
      show "F[k := word_of_int (clamp16 (sint (out0 ! k) + sint (samples ! n)))] ! j
              = (if pos \<le> int j \<and> int j < pos + int (Suc n)
                 then word_of_int (clamp16 (sint (out0 ! j) + sint (samples ! nat (int j - pos))))
                 else out0 ! j)"
      proof (cases "j = k")
        case True
        then show ?thesis using k n len by simp
      next
        case False
        then have "int j \<noteq> pos + int n" using k(1) by linarith
        then show ?thesis using False nth [OF j] len j by (auto simp: nth_list_update)
      qed
    qed
  next
    case False
    have eq: "mix_step pos samples n F = F"
      using False len by (auto simp: mix_step_def ta_put_def Let_def)
    show ?thesis
      unfolding step eq
    proof (intro conjI allI impI)
      show "length F = length out0" by (rule len)
    next
      fix j assume j: "j < length out0"
      then have "int j \<noteq> pos + int n" using False by linarith
      then show "F ! j = (if pos \<le> int j \<and> int j < pos + int (Suc n)
                 then word_of_int (clamp16 (sint (out0 ! j) + sint (samples ! nat (int j - pos))))
                 else out0 ! j)"
        using nth [OF j] by auto
    qed
  qed
qed

lemma length_mix_buffer: "length (mix_buffer pos samples out) = length out"
  using mix_fold_nth [of pos samples "length samples" out] by (simp add: mix_buffer_def)

lemma mix_buffer_nth:
  "j < length out \<Longrightarrow>
   mix_buffer pos samples out ! j
     = (if pos \<le> int j \<and> int j < pos + int (length samples)
        then word_of_int (clamp16 (sint (out ! j) + sint (samples ! nat (int j - pos))))
        else out ! j)"
  using mix_fold_nth [of pos samples "length samples" out] by (simp add: mix_buffer_def)

lemma fold_zip_offsets:
  "fold (\<lambda>((samples, time), pos) out. mix_buffer pos samples out)
     (zip bs (offsets startTime bs)) out
   = fold (\<lambda>(samples, time) out. mix_buffer (offset_of startTime time) samples out) bs out"
  by (induction bs arbitrary: out) (auto simp: offsets_def)

lemma maxIndex_zip_offsets:
  "fold (\<lambda>((samples, time), pos) m. max m (pos + int (length samples)))
     (zip bs (offsets startTime bs)) m0
   = fold (\<lambda>(samples, time) m. max m (offset_of startTime time + int (length samples))) bs m0"
  by (induction bs arbitrary: m0) (auto simp: offsets_def)

lemma fold_max_ge:
  "m0 \<le> fold (\<lambda>(samples, time) m. max m (offset_of startTime time + int (length samples))) bs m0"
proof (induction bs arbitrary: m0)
  case Nil
  then show ?case by simp
next
  case (Cons b bs)
  obtain samples time where b: "b = (samples, time)" by (cases b)
  have "m0 \<le> max m0 (offset_of startTime time + int (length samples))" by simp
  also have "\<dots> \<le> fold (\<lambda>(samples, time) m. max m (offset_of startTime time + int (length samples))) bs
                     (max m0 (offset_of startTime time + int (length samples)))"
    by (rule Cons.IH)
  finally show ?case by (simp add: b)
qed

lemma maxIndex_ge: "int (length xs) \<le> maxIndex xs bs (offsets startTime bs)"
  unfolding maxIndex_def maxIndex_zip_offsets by (rule fold_max_ge)

lemma int16_of_sint: "word_of_int (sint (w :: int16)) = w"
  by simp

lemma math_round_of_int: "math_round (of_int n) = n"
  unfolding math_round_def by linarith

text \<open>The offset depends on the two clock readings only through their difference.\<close>

lemma offset_of_diff: "offset_of startTime (startTime + d) = offset_of 0 d"
  by (simp add: offset_of_def)

lemma offset_of_500ms: "offset_of 0 500000000 = 24000"
proof -
  have a: "fl 500000000 = 500000000" using fl_of_int [of 500000000] by simp
  have b: "fl 500 = 500" using fl_of_int [of 500] by simp
  have c: "fl 24000000 = 24000000" using fl_of_int [of 24000000] by simp
  have d: "fl 24000 = 24000" using fl_of_int [of 24000] by simp
  have e: "math_round 24000 = 24000" using math_round_of_int [of 24000] by simp
  show ?thesis
    by (simp add: offset_of_def sampleRate_def targetRate_def a b c d e)
qed

text \<open>One buffer mixed into silence, inside the bounds of the output.\<close>

lemma mix_buffer_silence:
  assumes "p + length ys + r = n"
  shows "mix_buffer (int p) ys (replicate n 0) = replicate p 0 @ ys @ replicate r 0"
proof (rule nth_equalityI)
  show "length (mix_buffer (int p) ys (replicate n 0))
          = length (replicate p 0 @ ys @ replicate r 0)"
    using assms by (simp add: length_mix_buffer)
next
  fix j assume "j < length (mix_buffer (int p) ys (replicate n 0))"
  then have j: "j < n" by (simp add: length_mix_buffer)
  have "nat (int j - int p) = j - p" by simp
  then show "mix_buffer (int p) ys (replicate n 0) ! j = (replicate p 0 @ ys @ replicate r 0) ! j"
    using j assms
    by (auto simp: mix_buffer_nth nth_append clamp16_sint)
qed

section \<open>The whole mixer\<close>

lemma offset_of_same: "offset_of startTime startTime = 0"
  using math_round_of_int [of 0] by (simp add: offset_of_def fl_zero)

lemma offset_of_nonneg:
  assumes "startTime \<le> time"
  shows "0 \<le> offset_of startTime time"
proof -
  have a: "0 \<le> fl (of_int (time - startTime))" using assms by (intro fl_nonneg) simp
  have b: "0 \<le> fl (fl (of_int (time - startTime)) / 1000000)" using a by (intro fl_nonneg) simp
  have c: "0 \<le> fl (fl (fl (of_int (time - startTime)) / 1000000) * of_nat sampleRate)"
    using b by (intro fl_nonneg) simp
  have d: "0 \<le> fl (fl (fl (fl (of_int (time - startTime)) / 1000000) * of_nat sampleRate) / 1000)"
    using c by (intro fl_nonneg) simp
  show ?thesis
    using d unfolding offset_of_def Let_def math_round_def by simp
qed

lemma fold_max_Max:
  "fold (\<lambda>(samples, time) m. max m (offset_of startTime time + int (length samples))) bs m0
   = Max (insert m0
            ((\<lambda>(samples, time). offset_of startTime time + int (length samples)) ` set bs))"
proof (induction bs arbitrary: m0)
  case Nil
  show ?case by simp
next
  case (Cons b bs)
  let ?f = "\<lambda>(samples, time). offset_of startTime time + int (length samples)"
  obtain samples time where b: "b = (samples, time)" by (cases b)
  have "fold (\<lambda>(samples, time) m. max m (offset_of startTime time + int (length samples)))
          (b # bs) m0
        = Max (insert (max m0 (?f b)) (?f ` set bs))"
    using Cons.IH [of "max m0 (?f b)"] by (simp add: b)
  also have "\<dots> = Max (insert m0 (insert (?f b) (?f ` set bs)))"
    by (cases "set bs = {}") (simp_all add: max.assoc)
  finally show ?case by simp
qed

text \<open>The maximum that the script accumulates is the length of the specification.\<close>

lemma maxIndex_eq_spec: "maxIndex xs bs (offsets startTime bs) = maxIndex_spec startTime (length xs) bs"
  unfolding maxIndex_def maxIndex_zip_offsets fold_max_Max maxIndex_spec_def ..

text \<open>The whole mixer on the PCM buffer of a sample sequence.\<close>

lemma outputSamples_run:
  "outputSamples (inputPcm xs) startTime bs
   = Inr (fold (\<lambda>(samples, time) out. mix_buffer (offset_of startTime time) samples out) bs
            (xs @ replicate (nat (maxIndex_spec startTime (length xs) bs) - length xs) 0))"
  by (simp add: outputSamples_def int16_view_inputPcm Let_def fold_zip_offsets maxIndex_eq_spec)

lemma length_fold_mix:
  "length (fold (\<lambda>(samples, time) out. mix_buffer (offset_of startTime time) samples out) bs out)
   = length out"
  by (induction bs arbitrary: out) (auto simp: length_mix_buffer)

lemma maxIndex_spec_ge: "int len \<le> maxIndex_spec startTime len bs"
  by (simp add: maxIndex_spec_def)

lemma maxIndex_spec_covers:
  "(samples, time) \<in> set bs \<Longrightarrow>
   offset_of startTime time + int (length samples) \<le> maxIndex_spec startTime len bs"
  unfolding maxIndex_spec_def by (rule Max_ge) auto

text \<open>Every output sample is the saturating sum of the contributions at its index.\<close>

lemma fold_mix_nth:
  "j < length out \<Longrightarrow>
   sint (fold (\<lambda>(samples, time) out. mix_buffer (offset_of startTime time) samples out) bs out ! j)
     = saturating_sum (contributions startTime j bs) (sint (out ! j))"
proof (induction bs arbitrary: out)
  case Nil
  show ?case by (simp add: saturating_sum_def)
next
  case (Cons b bs)
  obtain samples time where b: "b = (samples, time)" by (cases b)
  define out' where "out' = mix_buffer (offset_of startTime time) samples out"
  have len: "j < length out'" using Cons.prems by (simp add: out'_def length_mix_buffer)
  have v: "sint (out' ! j)
             = (if offset_of startTime time \<le> int j
                    \<and> int j < offset_of startTime time + int (length samples)
                then clamp16 (sint (out ! j)
                              + sint (samples ! nat (int j - offset_of startTime time)))
                else sint (out ! j))"
    using Cons.prems by (simp add: out'_def mix_buffer_nth sint_clamp16)
  show ?case
    using Cons.IH [OF len] v by (simp add: b saturating_sum_def Let_def flip: out'_def)
qed

lemma saturating_sum_append:
  "saturating_sum (a @ b) v = saturating_sum b (saturating_sum a v)"
  by (simp add: saturating_sum_def)

lemma contributions_append:
  "contributions startTime j (a @ b) = contributions startTime j a @ contributions startTime j b"
  by (induction a) auto

lemma saturating_sum_top:
  "\<forall>c \<in> set cs. 0 \<le> c \<Longrightarrow> saturating_sum cs 32767 = 32767"
proof (induction cs)
  case Nil
  show ?case by (simp add: saturating_sum_def)
next
  case (Cons c cs)
  have "clamp16 (32767 + c) = 32767" using Cons.prems by (simp add: clamp16_def)
  then show ?case using Cons by (simp add: saturating_sum_def)
qed

lemma saturating_sum_nonneg:
  "\<forall>c \<in> set cs. 0 \<le> c \<Longrightarrow> 0 \<le> v \<Longrightarrow> v \<le> 32767 \<Longrightarrow>
   saturating_sum cs v = min 32767 (v + sum_list cs)"
proof (induction cs arbitrary: v)
  case Nil
  then show ?case by (simp add: saturating_sum_def)
next
  case (Cons c cs)
  have c: "0 \<le> c" and cs: "\<forall>c \<in> set cs. 0 \<le> c" using Cons.prems by simp_all
  have s: "0 \<le> sum_list cs" using cs by (simp add: sum_list_nonneg)
  have cl: "clamp16 (v + c) = min 32767 (v + c)" using c Cons.prems by (simp add: clamp16_def)
  have "saturating_sum (c # cs) v = saturating_sum cs (min 32767 (v + c))"
    by (simp add: saturating_sum_def cl)
  also have "\<dots> = min 32767 (min 32767 (v + c) + sum_list cs)"
    using c Cons.prems by (intro Cons.IH cs) simp_all
  also have "\<dots> = min 32767 (v + sum_list (c # cs))" using s by simp
  finally show ?case .
qed

lemma initial_nth:
  "j < length xs + k \<Longrightarrow>
   sint ((xs @ replicate k (0 :: int16)) ! j) = (if j < length xs then sint (xs ! j) else 0)"
  by (simp add: nth_append)

text \<open>
  A buffer placed at a negative offset is mixed like the buffer without its first
  samples placed at offset 0, and the two need the same output length.
\<close>

lemma mix_buffer_neg:
  assumes "pos < 0"
  shows "mix_buffer pos samples out = mix_buffer 0 (drop (nat (- pos)) samples) out"
proof (rule nth_equalityI)
  show "length (mix_buffer pos samples out)
          = length (mix_buffer 0 (drop (nat (- pos)) samples) out)"
    by (simp add: length_mix_buffer)
next
  fix j assume "j < length (mix_buffer pos samples out)"
  then have j: "j < length out" by (simp add: length_mix_buffer)
  define k where "k = nat (- pos)"
  have k: "pos = - int k" using assms by (simp add: k_def)
  have idx: "nat (int j - pos) = j + k" using k by simp
  have c: "(int j < pos + int (length samples)) = (j < length samples - k)"
    using k by auto
  have l: "mix_buffer pos samples out ! j
             = (if int j < pos + int (length samples)
                then word_of_int (clamp16 (sint (out ! j) + sint (samples ! (j + k))))
                else out ! j)"
    using j assms by (simp add: mix_buffer_nth idx)
  have r: "mix_buffer 0 (drop k samples) out ! j
            = (if j < length samples - k
               then word_of_int (clamp16 (sint (out ! j) + sint (samples ! (j + k))))
               else out ! j)"
    using j by (simp add: mix_buffer_nth add.commute)
  show "mix_buffer pos samples out ! j = mix_buffer 0 (drop (nat (- pos)) samples) out ! j"
    using l r c by (simp flip: k_def)
qed

lemma maxIndex_spec_neg:
  assumes "offset_of startTime time < 0"
  shows "maxIndex_spec startTime len (pre @ (samples, time) # post)
         = maxIndex_spec startTime len
             (pre @ (drop (nat (- offset_of startTime time)) samples, startTime) # post)"
proof -
  let ?f = "\<lambda>(samples, time). offset_of startTime time + int (length samples)"
  define S where "S = insert (int len) (?f ` (set pre \<union> set post))"
  define pos where "pos = offset_of startTime time"
  have fin: "finite S" "S \<noteq> {}" by (simp_all add: S_def)
  have ge: "0 \<le> Max S"
  proof -
    have "int len \<le> Max S" using fin by (intro Max_ge) (simp_all add: S_def)
    then show ?thesis by simp
  qed
  have l: "maxIndex_spec startTime len (pre @ (samples, time) # post)
             = max (pos + int (length samples)) (Max S)"
    using Max_insert [OF fin, of "pos + int (length samples)"]
    by (simp add: maxIndex_spec_def S_def pos_def image_Un insert_commute)
  have r: "maxIndex_spec startTime len (pre @ (drop (nat (- pos)) samples, startTime) # post)
             = max (int (length samples - nat (- pos))) (Max S)"
    using Max_insert [OF fin, of "int (length samples - nat (- pos))"]
    by (simp add: maxIndex_spec_def S_def offset_of_same image_Un insert_commute)
  have "max (pos + int (length samples)) (Max S) = max (int (length samples - nat (- pos))) (Max S)"
    using assms ge unfolding pos_def by (cases "nat (- offset_of startTime time) \<le> length samples") auto
  then show ?thesis using l r by (simp add: pos_def)
qed

lemma offset_of_early: "offset_of 0 (- 40000) = - 2"
  apply (simp add: offset_of_def sampleRate_def targetRate_def)
  apply code_simp
  done

lemma offset_of_just_early: "offset_of 0 (- 10416) = 0"
  apply (simp add: offset_of_def sampleRate_def targetRate_def)
  apply code_simp
  done

section \<open>Claims about the timeline mixer\<close>

text \<open>
  Claim C8 (mixer identity). With no captured buffer the output of the mixer is the input
  sample sequence itself, sample for sample and of the same length. The input of the
  mixer is the view of the PCM buffer that the script filled from the resampled samples.
\<close>

theorem mixer_identity: "outputSamples (inputPcm xs) startTime [] = Inr xs"
  by (simp add: outputSamples_def int16_view_inputPcm offsets_def maxIndex_def)

text \<open>
  Claim C1 (end-to-end scenario). The input is one second of silence at 48000 Hz
  (48000 zero samples); one buffer of ten samples of value 1000 arrives 500 ms
  (500000000 ns) after the start instant. The mixed output has 48000 samples: 24000
  zeros, then the ten samples of value 1000 at the indices 24000 to 24009, then 23990
  zeros.
\<close>

theorem end_to_end_scenario:
  "outputSamples (inputPcm (replicate 48000 0)) startTime
     [(replicate 10 1000, startTime + 500000000)]
   = Inr (replicate 24000 0 @ replicate 10 1000 @ replicate 23990 0)"
proof -
  have off: "offset_of startTime (startTime + 500000000) = 24000"
    by (simp only: offset_of_diff offset_of_500ms)
  have mix: "mix_buffer 24000 (replicate 10 1000) (replicate 48000 0)
               = replicate 24000 0 @ replicate 10 1000 @ replicate 23990 (0 :: int16)"
    using mix_buffer_silence [of 24000 "replicate 10 1000" 23990 48000] by simp
  show ?thesis
    by (simp add: outputSamples_def int16_view_inputPcm offsets_def maxIndex_def off mix)
qed

text \<open>
  Claim C2 as stated fails in its last clause. With the input sample 10000 and two
  buffers holding 30000 and -5000 at the same index, the contributions add up to 35000,
  which exceeds 32767, but the output sample is 27767: the mixer clamps 10000 + 30000 to
  32767 right after the first addition and then subtracts 5000.
\<close>

theorem mixer_saturation_counterexample:
  "outputSamples (inputPcm [10000]) 0 [([30000], 0), ([- 5000], 0)] = Inr [27767]
   \<and> (32767 :: int) < 10000 + 30000 + (- 5000)"
  by (simp add: outputSamples_def int16_view_inputPcm offsets_def maxIndex_def offset_of_same
      mix_buffer_def mix_step_def ta_get_def ta_put_def clamp16_def)

text \<open>
  Claim C2, amended (saturation). The mixer returns a mix buffer whose length is the
  greatest of the input length and the ends \<open>offsetSamples + length\<close> of the buffers, so
  every sample of a buffer whose target index is not negative has its place in it. At
  every index \<open>j\<close> the output sample is obtained from the input sample (0 beyond the
  input) by adding the samples that the buffers contribute at \<open>j\<close>, buffer after buffer,
  clamping to the range from -32768 to 32767 straight after each addition; the stored
  value is never a wrapped-around one. When one addition brings the running value above
  32767 and no later contribution at \<open>j\<close> is negative, the output sample is exactly
  32767. In particular, when the input sample and all contributions at \<open>j\<close> are
  non-negative, the output sample is the smaller of 32767 and their sum.
\<close>

theorem mixer_saturation:
  "\<exists>out. outputSamples (inputPcm xs) startTime gptBuffers = Inr out
     \<and> int (length out) = maxIndex_spec startTime (length xs) gptBuffers
     \<and> (\<forall>(samples, time) \<in> set gptBuffers. \<forall>k < length samples.
           0 \<le> offset_of startTime time + int k
             \<longrightarrow> nat (offset_of startTime time + int k) < length out)
     \<and> (\<forall>j < length out.
          (let v0 = (if j < length xs then sint (xs ! j) else 0);
               cs = contributions startTime j gptBuffers
           in sint (out ! j) = saturating_sum cs v0
              \<and> (\<forall>a c b. cs = a @ c # b \<and> 32767 < saturating_sum a v0 + c
                           \<and> (\<forall>x \<in> set b. 0 \<le> x)
                    \<longrightarrow> sint (out ! j) = 32767)
              \<and> (0 \<le> v0 \<and> (\<forall>x \<in> set cs. 0 \<le> x)
                    \<longrightarrow> sint (out ! j) = min 32767 (v0 + sum_list cs))))"
proof -
  define M where "M = maxIndex_spec startTime (length xs) gptBuffers"
  define out0 where "out0 = xs @ replicate (nat M - length xs) (0 :: int16)"
  define out where
    "out = fold (\<lambda>(samples, time) out. mix_buffer (offset_of startTime time) samples out)
             gptBuffers out0"
  have Mge: "int (length xs) \<le> M" unfolding M_def by (rule maxIndex_spec_ge)
  have run: "outputSamples (inputPcm xs) startTime gptBuffers = Inr out"
    by (simp add: outputSamples_run out_def out0_def M_def)
  have len0: "int (length out0) = M" using Mge by (simp add: out0_def)
  have len: "int (length out) = M" using len0 by (simp add: out_def length_fold_mix)
  have cover: "\<forall>(samples, time) \<in> set gptBuffers. \<forall>k < length samples.
           0 \<le> offset_of startTime time + int k
             \<longrightarrow> nat (offset_of startTime time + int k) < length out"
  proof (intro ballI, clarify)
    fix samples time k
    assume b: "(samples, time) \<in> set gptBuffers" and k: "k < length samples"
      and nn: "0 \<le> offset_of startTime time + int k"
    have "offset_of startTime time + int (length samples) \<le> M"
      unfolding M_def using b by (rule maxIndex_spec_covers)
    then show "nat (offset_of startTime time + int k) < length out"
      using k nn len by linarith
  qed
  have nth: "\<forall>j < length out.
          (let v0 = (if j < length xs then sint (xs ! j) else 0);
               cs = contributions startTime j gptBuffers
           in sint (out ! j) = saturating_sum cs v0
              \<and> (\<forall>a c b. cs = a @ c # b \<and> 32767 < saturating_sum a v0 + c
                           \<and> (\<forall>x \<in> set b. 0 \<le> x)
                    \<longrightarrow> sint (out ! j) = 32767)
              \<and> (0 \<le> v0 \<and> (\<forall>x \<in> set cs. 0 \<le> x)
                    \<longrightarrow> sint (out ! j) = min 32767 (v0 + sum_list cs)))"
  proof (intro allI impI)
    fix j assume j: "j < length out"
    define v0 where "v0 = (if j < length xs then sint (xs ! j) else 0)"
    define cs where "cs = contributions startTime j gptBuffers"
    have j0: "j < length out0" using j len len0 by simp
    have j0': "j < length xs + (nat M - length xs)" using j0 by (simp add: out0_def)
    have init: "sint (out0 ! j) = v0"
      unfolding out0_def v0_def using j0' by (rule initial_nth)
    have v: "sint (out ! j) = saturating_sum cs v0"
      unfolding out_def cs_def using fold_mix_nth [OF j0, of startTime gptBuffers] init by simp
    have v0r: "v0 \<le> 32767"
      using sint_int16_range [of "xs ! j"] by (simp add: v0_def)
    have top: "\<forall>a c b. cs = a @ c # b \<and> 32767 < saturating_sum a v0 + c
                           \<and> (\<forall>x \<in> set b. 0 \<le> x)
                    \<longrightarrow> sint (out ! j) = 32767"
    proof (intro allI impI, elim conjE)
      fix a c b
      assume e: "cs = a @ c # b" and big: "32767 < saturating_sum a v0 + c"
        and nn: "\<forall>x \<in> set b. 0 \<le> x"
      have "saturating_sum cs v0 = saturating_sum b (clamp16 (saturating_sum a v0 + c))"
        by (simp add: e saturating_sum_def)
      also have "clamp16 (saturating_sum a v0 + c) = 32767" using big by (simp add: clamp16_def)
      also have "saturating_sum b 32767 = 32767" using nn by (rule saturating_sum_top)
      finally show "sint (out ! j) = 32767" by (simp add: v)
    qed
    have sum: "0 \<le> v0 \<and> (\<forall>x \<in> set cs. 0 \<le> x)
                    \<longrightarrow> sint (out ! j) = min 32767 (v0 + sum_list cs)"
      using saturating_sum_nonneg [of cs v0] v0r v by simp
    show "let v0 = (if j < length xs then sint (xs ! j) else 0);
               cs = contributions startTime j gptBuffers
           in sint (out ! j) = saturating_sum cs v0
              \<and> (\<forall>a c b. cs = a @ c # b \<and> 32767 < saturating_sum a v0 + c
                           \<and> (\<forall>x \<in> set b. 0 \<le> x)
                    \<longrightarrow> sint (out ! j) = 32767)
              \<and> (0 \<le> v0 \<and> (\<forall>x \<in> set cs. 0 \<le> x)
                    \<longrightarrow> sint (out ! j) = min 32767 (v0 + sum_list cs))"
      unfolding Let_def using v top sum by (simp only: v0_def cs_def)
  qed
  show ?thesis
    using run len cover nth unfolding M_def by blast
qed

text \<open>
  Two samples of input, 10000 and silence, and two buffers at the start instant. At index 0
  the sum 40000 is clamped to 32767 before 5000 is subtracted; at index 1 the two samples
  30000 saturate.
\<close>

theorem mixer_saturation_witness:
  "outputSamples (inputPcm [10000, 0]) 0 [([30000, 30000], 0), ([- 5000, 30000], 0)]
     = Inr [27767, 32767]
   \<and> maxIndex_spec 0 (length [10000, 0 :: int16]) [([30000, 30000], 0), ([- 5000, 30000], 0)] = 2
   \<and> contributions 0 0 [([30000, 30000], 0), ([- 5000, 30000], 0)] = [30000, - 5000]
   \<and> contributions 0 1 [([30000, 30000], 0), ([- 5000, 30000], 0)] = [30000, 30000]
   \<and> saturating_sum [30000, - 5000] 10000 = 27767
   \<and> (0::int) \<le> 0 \<and> (0::int) \<le> 30000
   \<and> min 32767 (0 + sum_list [30000, 30000 :: int]) = 32767"
proof -
  define bs :: "gptBuffer list" where "bs = [([30000, 30000], 0), ([- 5000, 30000], 0)]"
  have m: "maxIndex_spec 0 (length [10000, 0 :: int16]) bs = 2"
    by (simp add: maxIndex_spec_def offset_of_same bs_def)
  have c0: "contributions 0 0 bs = [30000, - 5000]"
    by (simp add: offset_of_same bs_def)
  have c1: "contributions 0 1 bs = [30000, 30000]"
    by (simp add: offset_of_same bs_def)
  have s0: "saturating_sum [30000, - 5000] 10000 = 27767"
    by (simp add: saturating_sum_def clamp16_def)
  obtain out where run: "outputSamples (inputPcm [10000, 0]) 0 bs = Inr out"
    and len: "int (length out) = 2"
    and nth: "\<forall>j < length out.
          (let v0 = (if j < length [10000, 0 :: int16] then sint ([10000, 0 :: int16] ! j) else 0);
               cs = contributions 0 j bs
           in sint (out ! j) = saturating_sum cs v0
              \<and> (\<forall>a c b. cs = a @ c # b \<and> 32767 < saturating_sum a v0 + c
                           \<and> (\<forall>x \<in> set b. 0 \<le> x)
                    \<longrightarrow> sint (out ! j) = 32767)
              \<and> (0 \<le> v0 \<and> (\<forall>x \<in> set cs. 0 \<le> x)
                    \<longrightarrow> sint (out ! j) = min 32767 (v0 + sum_list cs)))"
    using mixer_saturation [of "[10000, 0]" 0 bs] unfolding m by blast
  have l: "length out = 2" using len by simp
  have "0 < length out" using l by simp
  with nth have "let v0 = (if 0 < length [10000, 0 :: int16] then sint ([10000, 0 :: int16] ! 0) else 0);
               cs = contributions 0 0 bs
           in sint (out ! 0) = saturating_sum cs v0
              \<and> (\<forall>a c b. cs = a @ c # b \<and> 32767 < saturating_sum a v0 + c
                           \<and> (\<forall>x \<in> set b. 0 \<le> x)
                    \<longrightarrow> sint (out ! 0) = 32767)
              \<and> (0 \<le> v0 \<and> (\<forall>x \<in> set cs. 0 \<le> x)
                    \<longrightarrow> sint (out ! 0) = min 32767 (v0 + sum_list cs))"
    by blast
  then have "sint (out ! 0) = 27767" unfolding Let_def c0 by (simp add: s0)
  then have o0: "out ! 0 = 27767"
    using int16_of_sint [of "out ! 0"] by simp
  have "1 < length out" using l by simp
  with nth have "let v0 = (if 1 < length [10000, 0 :: int16] then sint ([10000, 0 :: int16] ! 1) else 0);
               cs = contributions 0 1 bs
           in sint (out ! 1) = saturating_sum cs v0
              \<and> (\<forall>a c b. cs = a @ c # b \<and> 32767 < saturating_sum a v0 + c
                           \<and> (\<forall>x \<in> set b. 0 \<le> x)
                    \<longrightarrow> sint (out ! 1) = 32767)
              \<and> (0 \<le> v0 \<and> (\<forall>x \<in> set cs. 0 \<le> x)
                    \<longrightarrow> sint (out ! 1) = min 32767 (v0 + sum_list cs))"
    by blast
  then have "sint (out ! 1) = 32767" unfolding Let_def c1 by simp
  then have o1: "out ! 1 = 32767"
    using int16_of_sint [of "out ! 1"] by simp
  have "out = [out ! 0, out ! 1]"
    using l by (cases out; cases "tl out") auto
  then have "out = [27767, 32767]" using o0 o1 by simp
  then show ?thesis using run m c0 c1 s0 unfolding bs_def by simp
qed

text \<open>
  Claim C10 as stated fails in its premise: a buffer can arrive before the start instant
  and still have the computed offset 0. An arrival 10416 ns early is 0.499968 samples
  early, which rounds to 0; nothing of such a buffer is discarded.
\<close>

theorem negative_offset_counterexample:
  "(- 10416 :: int) < 0 \<and> offset_of 0 (- 10416) = 0
   \<and> outputSamples (inputPcm [1, 2]) 0 [([5, 6], - 10416)] = Inr [6, 8]"
  by (simp add: outputSamples_def int16_view_inputPcm offsets_def maxIndex_def
      offset_of_just_early mix_buffer_def mix_step_def ta_get_def ta_put_def clamp16_def)

text \<open>
  Claim C10, amended (negative offsets). Let the computed offset of a captured buffer be
  negative; then the buffer arrived before the start instant (the converse fails, see
  above). The mixer does not move the buffer to offset 0: its sample with local index
  \<open>k\<close> belongs to the output index \<open>offset + k\<close>. The samples whose index would be
  negative are dropped without effect: the whole output is the one that the mixer
  produces when the buffer is replaced by the buffer without its first \<open>- offset\<close>
  samples, captured at the start instant. Every sample of the buffer whose target index is
  not negative has its place in the output, where it is added with saturation after the
  contributions of the buffers before it and before those of the buffers after it. The
  length of the output is the greatest of the input length and the ends of the buffers,
  never less than the input length.
\<close>

theorem negative_offset_discards:
  assumes neg: "offset_of startTime time < 0"
  shows "time < startTime
       \<and> outputSamples (inputPcm xs) startTime (pre @ (samples, time) # post)
           = outputSamples (inputPcm xs) startTime
               (pre @ (drop (nat (- offset_of startTime time)) samples, startTime) # post)
       \<and> (\<exists>out. outputSamples (inputPcm xs) startTime (pre @ (samples, time) # post) = Inr out
             \<and> int (length out)
                 = maxIndex_spec startTime (length xs) (pre @ (samples, time) # post)
             \<and> length xs \<le> length out
             \<and> (\<forall>k < length samples.
                   0 \<le> offset_of startTime time + int k
                     \<longrightarrow> nat (offset_of startTime time + int k) < length out)
             \<and> (\<forall>j < length out.
                  (let v0 = (if j < length xs then sint (xs ! j) else 0);
                       v = saturating_sum (contributions startTime j pre) v0;
                       v' = (if int j < offset_of startTime time + int (length samples)
                             then clamp16 (v + sint (samples
                                                      ! (j + nat (- offset_of startTime time))))
                             else v)
                   in sint (out ! j) = saturating_sum (contributions startTime j post) v')))"
proof -
  define pos where "pos = offset_of startTime time"
  define bs where "bs = pre @ (samples, time) # post"
  define M where "M = maxIndex_spec startTime (length xs) bs"
  define out0 where "out0 = xs @ replicate (nat M - length xs) (0 :: int16)"
  define out where
    "out = fold (\<lambda>(samples, time) out. mix_buffer (offset_of startTime time) samples out)
             bs out0"
  have pos: "pos < 0" using neg by (simp add: pos_def)
  have p0: "time < startTime"
    using neg offset_of_nonneg [of startTime time] by (cases "time < startTime") simp_all
  have Mge: "int (length xs) \<le> M" unfolding M_def by (rule maxIndex_spec_ge)
  have run: "outputSamples (inputPcm xs) startTime bs = Inr out"
    by (simp add: outputSamples_run out_def out0_def M_def)
  have len0: "int (length out0) = M" using Mge by (simp add: out0_def)
  have len: "int (length out) = M" using len0 by (simp add: out_def length_fold_mix)
  have eq: "outputSamples (inputPcm xs) startTime bs
              = outputSamples (inputPcm xs) startTime
                  (pre @ (drop (nat (- pos)) samples, startTime) # post)"
    unfolding bs_def outputSamples_run pos_def maxIndex_spec_neg [OF neg, symmetric]
    using mix_buffer_neg [OF neg] by (simp add: offset_of_same)
  have cover: "\<forall>k < length samples. 0 \<le> pos + int k \<longrightarrow> nat (pos + int k) < length out"
  proof (intro allI impI)
    fix k assume k: "k < length samples" and nn: "0 \<le> pos + int k"
    have "(samples, time) \<in> set bs" by (simp add: bs_def)
    then have "offset_of startTime time + int (length samples) \<le> M"
      unfolding M_def by (rule maxIndex_spec_covers)
    then show "nat (pos + int k) < length out"
      using k nn len by (simp add: pos_def)
  qed
  have nth: "\<forall>j < length out.
                  (let v0 = (if j < length xs then sint (xs ! j) else 0);
                       v = saturating_sum (contributions startTime j pre) v0;
                       v' = (if int j < pos + int (length samples)
                             then clamp16 (v + sint (samples ! (j + nat (- pos))))
                             else v)
                   in sint (out ! j) = saturating_sum (contributions startTime j post) v')"
  proof (intro allI impI)
    fix j assume j: "j < length out"
    have j0: "j < length out0" using j len len0 by simp
    have j0': "j < length xs + (nat M - length xs)" using j0 by (simp add: out0_def)
    have init: "sint (out0 ! j) = (if j < length xs then sint (xs ! j) else 0)"
      unfolding out0_def using j0' by (rule initial_nth)
    have idx: "nat (int j - pos) = j + nat (- pos)" using pos by simp
    have le: "pos \<le> int j" using pos by simp
    have "sint (out ! j) = saturating_sum (contributions startTime j bs) (sint (out0 ! j))"
      unfolding out_def using j0 by (rule fold_mix_nth)
    then show "let v0 = (if j < length xs then sint (xs ! j) else 0);
                       v = saturating_sum (contributions startTime j pre) v0;
                       v' = (if int j < pos + int (length samples)
                             then clamp16 (v + sint (samples ! (j + nat (- pos))))
                             else v)
                   in sint (out ! j) = saturating_sum (contributions startTime j post) v'"
      using le idx
      by (simp add: init bs_def contributions_append saturating_sum_append Let_def
          saturating_sum_def flip: pos_def)
  qed
  have lx: "length xs \<le> length out" using Mge len by simp
  show ?thesis
    using p0 eq run len lx cover nth unfolding bs_def M_def pos_def by blast
qed

text \<open>A buffer that arrives 40 microseconds early has offset \<open>- 2\<close> and loses two samples.\<close>

theorem negative_offset_discards_witness:
  "offset_of 0 (- 40000) < 0
   \<and> outputSamples (inputPcm [1, 2, 3]) 0 [([32767, 32767, 5, 6, 7, 9], - 40000)]
       = Inr [6, 8, 10, 9]"
proof -
  have neg: "offset_of 0 (- 40000) < 0" by (simp add: offset_of_early)
  have tail: "outputSamples (inputPcm [1, 2, 3]) 0 [([5, 6, 7, 9], 0)] = Inr [6, 8, 10, 9]"
    by (simp add: outputSamples_def int16_view_inputPcm offsets_def maxIndex_def offset_of_same
        mix_buffer_def mix_step_def ta_get_def ta_put_def clamp16_def)
  have "outputSamples (inputPcm [1, 2, 3]) 0 [([32767, 32767, 5, 6, 7, 9], - 40000)]
          = outputSamples (inputPcm [1, 2, 3]) 0 [([5, 6, 7, 9], 0)]"
    using negative_offset_discards [OF neg, of "[1, 2, 3]" "[]" "[32767, 32767, 5, 6, 7, 9]" "[]"]
    by (simp add: offset_of_early)
  then show ?thesis using neg tail by simp
qed

section \<open>Claims about the completion watcher and the resampler's identity case\<close>

lemma onmessage_value:
  "m \<noteq> JNull \<Longrightarrow>
   onmessage (Some m) done
     = Inr (if get_type m = Inr (Some (JStr ''response.done'')) then True else done)"
  by (cases m) (simp_all add: onmessage_def)

lemma watcher_values:
  "\<forall>p \<in> set msgs. \<exists>m. p = Some m \<and> m \<noteq> JNull \<Longrightarrow>
   watcher msgs st
     = Inr (st \<or> (\<exists>m. Some m \<in> set msgs \<and> get_type m = Inr (Some (JStr ''response.done''))))"
proof (induction msgs arbitrary: st)
  case Nil
  then show ?case by simp
next
  case (Cons p ps)
  then obtain m where m: "p = Some m" "m \<noteq> JNull" by auto
  have ps: "\<forall>p \<in> set ps. \<exists>m. p = Some m \<and> m \<noteq> JNull" using Cons.prems by simp
  show ?case
    using Cons.IH [OF ps] m by (auto simp: onmessage_value)
qed

lemma onmessage_faults:
  "(\<exists>e. onmessage p done = Inl e) = (p = None \<or> p = Some JNull)"
proof (cases p)
  case None
  then show ?thesis by (simp add: onmessage_def)
next
  case (Some m)
  then show ?thesis by (cases m) (simp_all add: onmessage_def)
qed

text \<open>
  Claim C9 as stated fails: the handler faults on two kinds of control-channel messages.
  A message whose text is the JSON value \<^verbatim>\<open>null\<close> makes the read of \<^verbatim>\<open>m.type\<close> throw a
  TypeError, also after messages of other types; a message whose text is not JSON makes
  \<^verbatim>\<open>JSON.parse\<close> throw a SyntaxError.
\<close>

theorem watcher_faults_counterexample:
  "watcher [Some (JObj [(''type'', JStr ''session.created'')]), Some JNull] False = Inl TypeError
   \<and> watcher [None] False = Inl SyntaxError"
  by (simp add: onmessage_def)

text \<open>
  Claim C9, amended (completion watcher). The flag \<^verbatim>\<open>done\<close> is \<open>False\<close> while the watcher
  awaits the response and \<open>True\<close> when it is done. The handler faults exactly on a message
  whose text is not JSON and on the JSON value \<^verbatim>\<open>null\<close>. Every other message, whatever
  its type and also when it has none, is handled without a fault: it sets the flag when
  its type is the string \<^verbatim>\<open>response.done\<close> and leaves the flag as it is otherwise.
  Started with the flag unset, a sequence of such messages ends with the flag set exactly
  when one of them has the type \<^verbatim>\<open>response.done\<close>.
\<close>

theorem watcher_transitions:
  assumes "m \<noteq> JNull" and "\<forall>p \<in> set msgs. \<exists>m. p = Some m \<and> m \<noteq> JNull"
  shows "onmessage (Some m) done
           = Inr (if get_type m = Inr (Some (JStr ''response.done'')) then True else done)
         \<and> watcher msgs False
           = Inr (\<exists>m. Some m \<in> set msgs \<and> get_type m = Inr (Some (JStr ''response.done'')))
         \<and> ((\<exists>e. onmessage p done = Inl e) = (p = None \<or> p = Some JNull))"
  using assms by (simp add: onmessage_value watcher_values onmessage_faults)

text \<open>Messages of other types, a number, and one \<^verbatim>\<open>response.done\<close> among them.\<close>

theorem watcher_transitions_witness:
  "JObj [(''type'', JStr ''session.created'')] \<noteq> JNull
   \<and> onmessage (Some (JObj [(''type'', JStr ''session.created'')])) False = Inr False
   \<and> onmessage (Some (JObj [(''type'', JStr ''response.done'')])) False = Inr True
   \<and> watcher [Some (JObj [(''type'', JStr ''session.created'')]), Some (JNum 7),
                Some (JObj [(''event_id'', JStr ''e1''), (''type'', JStr ''response.done'')]),
                Some (JObj [(''type'', JStr ''rate_limits.updated'')])] False = Inr True
   \<and> watcher [Some (JObj [(''type'', JStr ''session.created'')]), Some (JNum 7)] False
       = Inr False"
proof -
  define L where "L = [Some (JObj [(''type'', JStr ''session.created'')]), Some (JNum 7),
                Some (JObj [(''event_id'', JStr ''e1''), (''type'', JStr ''response.done'')]),
                Some (JObj [(''type'', JStr ''rate_limits.updated'')])]"
  define K where "K = [Some (JObj [(''type'', JStr ''session.created'')]), Some (JNum 7)]"
  have hL: "\<forall>p \<in> set L. \<exists>m. p = Some m \<and> m \<noteq> JNull" by (simp add: L_def)
  have hK: "\<forall>p \<in> set K. \<exists>m. p = Some m \<and> m \<noteq> JNull" by (simp add: K_def)
  have n1: "JObj [(''type'', JStr ''session.created'')] \<noteq> JNull" by simp
  have n2: "JObj [(''type'', JStr ''response.done'')] \<noteq> JNull" by simp
  have exL: "\<exists>m. Some m \<in> set L \<and> get_type m = Inr (Some (JStr ''response.done''))"
    by (rule exI [of _ "JObj [(''event_id'', JStr ''e1''), (''type'', JStr ''response.done'')]"])
       (simp add: L_def)
  have exK: "\<not> (\<exists>m. Some m \<in> set K \<and> get_type m = Inr (Some (JStr ''response.done'')))"
    by (auto simp: K_def)
  have a: "onmessage (Some (JObj [(''type'', JStr ''session.created'')])) False = Inr False"
    using watcher_transitions [OF n1 hL, of False None] by simp
  have b: "onmessage (Some (JObj [(''type'', JStr ''response.done'')])) False = Inr True"
    using watcher_transitions [OF n2 hL, of False None] by simp
  have c: "watcher L False = Inr True"
    using watcher_transitions [OF n1 hL, of False None] exL by simp
  have d: "watcher K False = Inr False"
    using watcher_transitions [OF n1 hK, of False None] exK by simp
  show ?thesis using n1 a b c d unfolding L_def K_def by blast
qed

text \<open>
  Claim C5 (resampler identity). When the source rate equals the target rate the
  resampler returns its input, sample for sample; in the script the target rate is 48000.
\<close>

theorem resample_identity:
  "resample_to rate rate samples = Inr samples \<and> resample targetRate samples = Inr samples"
  by (simp add: resample_to_def resample_def)

section \<open>Claim about the frame pacer\<close>

lemma frameSize_480: "frameSize = 480"
  by (simp add: frameSize_def sampleRate_def targetRate_def)

lemma frameBytes_960: "frameBytes = 960"
  by (simp add: frameBytes_def frameSize_480)

lemma frameBytes_2: "frameBytes = 2 * frameSize"
  by (simp add: frameBytes_def)

lemma drop_inputPcm: "drop (2 * a) (inputPcm xs) = inputPcm (drop a xs)"
  unfolding inputPcm_eq
proof (induction xs arbitrary: a)
  case Nil
  then show ?case by simp
next
  case (Cons x xs)
  then show ?case by (cases a) simp_all
qed

lemma take_inputPcm: "take (2 * a) (inputPcm xs) = inputPcm (take a xs)"
  unfolding inputPcm_eq
proof (induction xs arbitrary: a)
  case Nil
  then show ?case by simp
next
  case (Cons x xs)
  then show ?case by (cases a) simp_all
qed

lemma int16_of_bytes_zeros: "int16_of_bytes (replicate (2 * n) 0) = replicate n 0"
  by (induction n) (simp_all add: word_cat_eq)

text \<open>One step of the pacing loop on the PCM buffer of a sample sequence.\<close>

lemma pace_step:
  assumes "k < length xs"
  shows "pace (inputPcm xs) (2 * k)
           = (take frameSize (drop k xs) @ replicate (frameSize - (length xs - k)) 0)
             # pace (inputPcm xs) (2 * (k + frameSize))"
proof -
  let ?ys = "take frameSize (drop k xs)"
  have chunk: "take frameBytes (drop (2 * k) (inputPcm xs)) = inputPcm ?ys"
    by (simp only: frameBytes_2 drop_inputPcm take_inputPcm)
  have len: "length ?ys = min frameSize (length xs - k)" by simp
  have frame: "take frameSize (int16_of_bytes
                 (if length (inputPcm ?ys) < frameBytes
                  then inputPcm ?ys @ replicate (frameBytes - length (inputPcm ?ys)) 0
                  else inputPcm ?ys))
               = ?ys @ replicate (frameSize - (length xs - k)) 0"
  proof (cases "length xs - k < frameSize")
    case True
    have "frameBytes - length (inputPcm ?ys) = 2 * (frameSize - (length xs - k))"
      using True by (simp add: frameBytes_def length_inputPcm)
    then show ?thesis
      using True
      by (simp add: length_inputPcm frameBytes_def int16_of_bytes_inputPcm int16_of_bytes_zeros)
  next
    case False
    then show ?thesis
      using int16_of_bytes_inputPcm [of ?ys "[]"]
      by (simp add: length_inputPcm frameBytes_def)
  qed
  have off: "2 * k + frameBytes = 2 * (k + frameSize)" by (simp add: frameBytes_def)
  have lt: "2 * k < length (inputPcm xs)" using assms by (simp add: length_inputPcm)
  show ?thesis
    by (subst pace.simps) (simp only: lt if_True Let_def chunk frame off)
qed

lemma pace_end: "length xs \<le> k \<Longrightarrow> pace (inputPcm xs) (2 * k) = []"
  by (subst pace.simps) (simp add: length_inputPcm)

lemma count_full: "(480::nat) \<le> d \<Longrightarrow> (d + 480 - 1) div 480 = Suc ((d - 480 + 480 - 1) div 480)"
  by (simp add: le_div_geq)

lemma count_short: "(d::nat) < 480 \<Longrightarrow> 0 < d \<Longrightarrow> (d + 480 - 1) div 480 = 1"
  by (simp add: div_eq_dividend_iff Suc_le_eq le_div_geq)

lemma pace_frames:
  "map length (pace (inputPcm xs) (2 * k))
     = replicate ((length xs - k + frameSize - 1) div frameSize) frameSize
   \<and> concat (pace (inputPcm xs) (2 * k))
     = drop k xs
       @ replicate ((length xs - k + frameSize - 1) div frameSize * frameSize - (length xs - k)) 0"
proof (induction "length xs - k" arbitrary: k rule: less_induct)
  case less
  show ?case
  proof (cases "k < length xs")
    case False
    then have d: "length xs - k = 0" by simp
    have e: "pace (inputPcm xs) (2 * k) = []" using False by (intro pace_end) simp
    show ?thesis unfolding e d using False by (simp add: frameSize_480)
  next
    case True
    let ?F = frameSize
    let ?n' = "(length xs - (k + ?F) + ?F - 1) div ?F"
    have dec: "length xs - (k + ?F) < length xs - k" using True by (simp add: frameSize_480)
    have IH1: "map length (pace (inputPcm xs) (2 * (k + ?F))) = replicate ?n' ?F"
      using less [OF dec] by (rule conjunct1)
    have IH2: "concat (pace (inputPcm xs) (2 * (k + ?F)))
         = drop (k + ?F) xs @ replicate (?n' * ?F - (length xs - (k + ?F))) 0"
      using less [OF dec] by (rule conjunct2)
    show ?thesis
    proof (cases "length xs - k < ?F")
      case short: True
      have n: "(length xs - k + ?F - 1) div ?F = 1"
        using count_short [of "length xs - k"] short True by (simp add: frameSize_480)
      have rest: "pace (inputPcm xs) (2 * (k + ?F)) = []"
        using short by (intro pace_end) simp
      show ?thesis
        unfolding pace_step [OF True] rest n using short True by simp
    next
      case full: False
      have "(length xs - k + 480 - 1) div 480 = Suc ((length xs - k - 480 + 480 - 1) div 480)"
        using full by (intro count_full) (simp add: frameSize_480)
      then have n: "(length xs - k + ?F - 1) div ?F = Suc ?n'"
        by (simp add: frameSize_480)
      have pad: "Suc ?n' * ?F - (length xs - k) = ?n' * ?F - (length xs - (k + ?F))"
        using full by simp
      have app: "take ?F (drop k xs) @ drop (k + ?F) xs = drop k xs"
        using append_take_drop_id [of ?F "drop k xs"] by (simp add: add.commute)
      have lenf: "length (take ?F (drop k xs)) = ?F" using full by simp
      have frame: "take ?F (drop k xs) @ replicate (?F - (length xs - k)) 0 = take ?F (drop k xs)"
        using full by simp
      have c: "concat (take ?F (drop k xs) # pace (inputPcm xs) (2 * (k + ?F)))
                 = drop k xs @ replicate (?n' * ?F - (length xs - (k + ?F))) 0"
        unfolding concat.simps IH2 append_assoc [symmetric] app ..
      have m: "map length (take ?F (drop k xs) # pace (inputPcm xs) (2 * (k + ?F)))
                 = replicate (Suc ?n') ?F"
        unfolding list.map IH1 lenf by simp
      show ?thesis
        unfolding pace_step [OF True] frame n pad using c m by (rule conjI [rotated])
    qed
  qed
qed

lemma ceil_480: "nat \<lceil>(of_nat n :: rat) / 480\<rceil> = (n + 479) div 480"
proof -
  define a where "a = (n + 479) div 480"
  define m where "m = (n + 479) mod 480"
  have eq: "n + 479 = 480 * a + m" by (simp add: a_def m_def)
  have m: "m < 480" by (simp add: m_def)
  have lo: "480 * int a - 480 < int n" using eq m by linarith
  have hi: "int n \<le> 480 * int a" using eq m by linarith
  have "\<lceil>(of_nat n :: rat) / 480\<rceil> = int a"
  proof (rule ceiling_unique)
    have "(of_int (480 * int a - 480) :: rat) < of_int (int n)"
      using lo by (simp only: of_int_less_iff)
    then show "of_int (int a) - 1 < (of_nat n :: rat) / 480" by (simp add: field_simps)
  next
    have "(of_int (int n) :: rat) \<le> of_int (480 * int a)"
      using hi by (simp only: of_int_le_iff)
    then show "(of_nat n :: rat) / 480 \<le> of_int (int a)" by (simp add: field_simps)
  qed
  then show ?thesis by (simp add: a_def)
qed

text \<open>
  Claim C3 (frame pacer). For an input of \<open>L\<close> samples and the frame size
  \<open>F = sampleRate / 100\<close> the pacer sends exactly \<open>\<lceil>L / F\<rceil>\<close> frames, every frame has
  exactly \<open>F\<close> samples, and the frames laid end to end are the input followed by zeros:
  the windows do not overlap, keep the order of the input, and the last one is padded
  with zero samples, not cut short or left out.
\<close>

theorem pacer_framing:
  "length (pace (inputPcm xs) 0) = nat \<lceil>(of_nat (length xs) :: rat) / of_nat frameSize\<rceil>
   \<and> map length (pace (inputPcm xs) 0) = replicate (length (pace (inputPcm xs) 0)) frameSize
   \<and> concat (pace (inputPcm xs) 0)
       = xs @ replicate (length (pace (inputPcm xs) 0) * frameSize - length xs) 0
   \<and> frameSize * 100 = sampleRate"
proof -
  have m: "map length (pace (inputPcm xs) 0)
             = replicate ((length xs + frameSize - 1) div frameSize) frameSize"
    using pace_frames [of xs 0] by simp
  have len: "length (pace (inputPcm xs) 0) = (length xs + frameSize - 1) div frameSize"
    using arg_cong [OF m, of length] by simp
  have c: "concat (pace (inputPcm xs) 0)
       = xs @ replicate ((length xs + frameSize - 1) div frameSize * frameSize - length xs) 0"
    using pace_frames [of xs 0] by simp
  have ce: "nat \<lceil>(of_nat (length xs) :: rat) / of_nat frameSize\<rceil>
              = (length xs + frameSize - 1) div frameSize"
    using ceil_480 [of "length xs"] by (simp add: frameSize_480)
  have r: "frameSize * 100 = sampleRate"
    by (simp add: frameSize_480 sampleRate_def targetRate_def)
  show ?thesis
    unfolding len ce using m c r by simp
qed

section \<open>Claims about the resampler\<close>

text \<open>The loop that fills the new array stores one interpolated sample at every index.\<close>

lemma fold_ta_put:
  "m \<le> n \<Longrightarrow>
   fold (\<lambda>i r. ta_put r (int i) (f i)) [0..<m] (replicate n 0) = map f [0..<m] @ replicate (n - m) 0"
proof (induction m)
  case 0
  then show ?case by simp
next
  case (Suc m)
  have rep: "replicate (n - m) (0 :: int16) = 0 # replicate (n - Suc m) 0"
    using Suc.prems by (simp add: Suc_diff_le flip: replicate_Suc)
  show ?case
    using Suc by (simp add: ta_put_def rep list_update_append)
qed

lemma resample_to_eq:
  assumes "S \<noteq> T" and "0 < S"
  shows "resample_to T S xs
           = Inr (map (\<lambda>i. to_int16 (interpolate (ratio_of T S) xs i))
                   [0..<newLen_of (ratio_of T S) (length xs)])"
  using assms fold_ta_put [of "newLen_of (ratio_of T S) (length xs)"
      "newLen_of (ratio_of T S) (length xs)" "\<lambda>i. to_int16 (interpolate (ratio_of T S) xs i)"]
  by (simp add: resample_to_def Let_def)

text \<open>
  689 samples at 5512 Hz: the ratio \<open>48000 / 5512\<close> is rounded down to binary64, the product
  with 689 rounds to the binary64 value just below 6000, and its floor is 5999.
\<close>

lemma newLen_5512: "newLen_of (ratio_of 48000 5512) 689 = 5999"
  apply (simp add: newLen_of_def ratio_of_def)
  apply code_simp
  done

text \<open>
  Claim C4 as stated fails: for 689 samples at 5512 Hz the script allocates 5999 samples,
  while \<open>\<lfloor>689 * 48000 / 5512\<rfloor> = 6000\<close>.
\<close>

theorem resample_length_counterexample:
  "map_sum id length (resample 5512 (replicate 689 0)) = Inr 5999
   \<and> (689 * 48000) div 5512 = (6000 :: nat)"
  by (simp add: resample_def targetRate_def resample_to_eq newLen_5512)

lemma fl_err_abs: "\<bar>fl x\<bar> \<le> \<bar>x\<bar> + \<bar>x\<bar> / 2 ^ 53"
  using fl_err [of x] by linarith

text \<open>Two roundings of a non-negative product: the error is at most three units in \<open>2 ^ 53\<close>.\<close>

lemma fl_mul_fl_err:
  assumes r: "0 \<le> r" and l: "0 \<le> l"
  shows "\<bar>fl (l * fl r) - l * r\<bar> \<le> 3 * (l * r) / 2 ^ 53"
proof -
  define d :: rat where "d = 1 / 2 ^ 53"
  have d: "0 < d" "d \<le> 1" by (simp_all add: d_def)
  have e1: "\<bar>fl r - r\<bar> \<le> r * d" using fl_err [of r] r by (simp add: d_def)
  have "\<bar>l * fl r - l * r\<bar> = l * \<bar>fl r - r\<bar>"
    using l by (simp add: abs_mult flip: right_diff_distrib)
  also have "\<dots> \<le> l * (r * d)" using e1 l by (rule mult_left_mono)
  finally have e2: "\<bar>l * fl r - l * r\<bar> \<le> l * r * d" by (simp add: mult.assoc)
  have lr: "0 \<le> l * r" using r l by simp
  have p: "\<bar>l * fl r\<bar> \<le> l * r + l * r * d" using e2 lr by linarith
  have "\<bar>fl (l * fl r) - l * fl r\<bar> \<le> \<bar>l * fl r\<bar> * d"
    using fl_err [of "l * fl r"] by (simp add: d_def)
  also have "\<dots> \<le> (l * r + l * r * d) * d" using p d by (intro mult_right_mono) simp_all
  also have "\<dots> \<le> (l * r + l * r * 1) * d"
    using d lr by (intro mult_right_mono add_left_mono mult_left_mono) simp_all
  finally have e3: "\<bar>fl (l * fl r) - l * fl r\<bar> \<le> 2 * (l * r) * d" by simp
  have "\<bar>fl (l * fl r) - l * r\<bar> \<le> 3 * (l * r) * d" using e2 e3 by linarith
  then show ?thesis by (simp add: d_def)
qed

lemma newLen_err:
  assumes S: "0 < S" and b: "L * T < 2 ^ 51"
  shows "\<bar>fl (of_nat L * fl (of_nat T / of_nat S)) - of_nat (L * T) / of_nat S\<bar>
           < 1 / (of_nat S :: rat)"
proof -
  define q :: rat where "q = of_nat (L * T) / of_nat S"
  have Sr: "(0::rat) < of_nat S" using S by simp
  have q: "of_nat L * (of_nat T / of_nat S) = q" by (simp add: q_def)
  have "(of_nat (L * T) :: rat) < of_nat (2 ^ 51)" using b by (simp only: of_nat_less_iff)
  then have lt: "(of_nat (L * T) :: rat) < 2 ^ 51" by simp
  have q0: "0 \<le> q" by (simp add: q_def)
  have r0: "(0::rat) \<le> of_nat T / of_nat S" by simp
  have l0: "(0::rat) \<le> of_nat L" by simp
  have "\<bar>fl (of_nat L * fl (of_nat T / of_nat S)) - q\<bar> \<le> 3 * q / 2 ^ 53"
    using fl_mul_fl_err [OF r0 l0] by (simp only: q)
  also have "3 * q / 2 ^ 53 = (3 * of_nat (L * T) / 2 ^ 53) / of_nat S" by (simp add: q_def)
  also have "\<dots> < 1 / of_nat S"
    using lt Sr by (intro divide_strict_right_mono) simp_all
  finally show ?thesis by (simp add: q_def)
qed

lemma floor_near_quotient:
  fixes p :: rat
  assumes S: "0 < S" and near: "\<bar>p - of_nat n / of_nat S\<bar> < 1 / of_nat S" and p0: "0 \<le> p"
  shows "nat \<lfloor>p\<rfloor> = n div S \<or> (S dvd n \<and> nat \<lfloor>p\<rfloor> + 1 = n div S)"
proof -
  define m where "m = n div S"
  define k where "k = n mod S"
  have n: "n = S * m + k" by (simp add: m_def k_def)
  have k: "k < S" using S by (simp add: k_def)
  have Sr: "(0::rat) < of_nat S" using S by simp
  have q: "(of_nat n :: rat) / of_nat S = of_nat m + of_nat k / of_nat S"
    using Sr by (simp add: n field_simps)
  have lo: "of_nat m + (of_nat k - 1) / of_nat S < p"
    using near Sr unfolding q by (simp add: abs_less_iff field_simps)
  have hi: "p < of_nat m + (of_nat k + 1) / of_nat S"
    using near Sr unfolding q by (simp add: abs_less_iff field_simps)
  have k1: "(of_nat k + 1 :: rat) / of_nat S \<le> 1"
  proof -
    have "(of_nat (k + 1) :: rat) \<le> of_nat S" using k by simp
    then show ?thesis using Sr by (simp add: field_simps)
  qed
  have up: "p < of_nat m + 1" using hi k1 by linarith
  show ?thesis
  proof (cases "k = 0")
    case False
    then have "(0::rat) \<le> (of_nat k - 1) / of_nat S" using Sr by simp
    then have "of_nat m < p" using lo by linarith
    then have "\<lfloor>p\<rfloor> = int m" using up by (intro floor_unique) simp_all
    then show ?thesis by (simp add: m_def)
  next
    case True
    have dv: "S dvd n" using True by (simp add: k_def dvd_eq_mod_eq_0)
    have "(of_nat k - 1 :: rat) / of_nat S \<ge> - 1"
      using True S Sr by (simp add: field_simps)
    then have low: "of_nat m - 1 < p" using lo by linarith
    show ?thesis
    proof (cases "of_nat m \<le> p")
      case True
      then have "\<lfloor>p\<rfloor> = int m" using up by (intro floor_unique) simp_all
      then show ?thesis by (simp add: m_def)
    next
      case False
      then have "\<lfloor>p\<rfloor> = int m - 1" using low by (intro floor_unique) simp_all
      moreover have "0 < m"
      proof (rule ccontr)
        assume "\<not> 0 < m"
        then have "m = 0" by simp
        then show False using False p0 by simp
      qed
      ultimately have "nat \<lfloor>p\<rfloor> + 1 = m" by simp
      then show ?thesis using dv by (simp add: m_def)
    qed
  qed
qed

lemma newLen_of_cases:
  assumes S: "0 < S" and b: "L * T < 2 ^ 51"
  shows "newLen_of (ratio_of T S) L = L * T div S
         \<or> (S dvd L * T \<and> newLen_of (ratio_of T S) L + 1 = L * T div S)"
proof -
  have "0 \<le> of_nat L * fl (of_nat T / of_nat S)"
    by (intro mult_nonneg_nonneg fl_nonneg) simp_all
  then have p0: "0 \<le> fl (of_nat L * fl (of_nat T / of_nat S))" by (rule fl_nonneg)
  show ?thesis
    unfolding newLen_of_def ratio_of_def
    by (rule floor_near_quotient [OF S newLen_err [OF S b] p0])
qed

text \<open>
  The length that the script allocates, for a source rate that divides
  \<open>inputLength * targetRate\<close> and for one that does not.
\<close>

lemma newLen_of_exact:
  assumes S: "0 < S" and b: "L * T < 2 ^ 51"
  shows "newLen_of (ratio_of T S) L
           = (if S dvd L * T \<and> fl (of_nat L * ratio_of T S) < of_nat (L * T div S)
              then L * T div S - 1 else L * T div S)"
proof -
  define p where "p = fl (of_nat L * ratio_of T S)"
  define m where "m = L * T div S"
  have Sr: "(0::rat) < of_nat S" using S by simp
  have "0 \<le> of_nat L * fl (of_nat T / of_nat S)"
    by (intro mult_nonneg_nonneg fl_nonneg) simp_all
  then have p0: "0 \<le> p" unfolding p_def ratio_of_def by (rule fl_nonneg)
  have near: "\<bar>p - of_nat (L * T) / of_nat S\<bar> < 1 / of_nat S"
    unfolding p_def ratio_of_def by (rule newLen_err [OF S b])
  have cases: "nat \<lfloor>p\<rfloor> = m \<or> (S dvd L * T \<and> nat \<lfloor>p\<rfloor> + 1 = m)"
    unfolding m_def by (rule floor_near_quotient [OF S near p0])
  have nl: "newLen_of (ratio_of T S) L = nat \<lfloor>p\<rfloor>" by (simp add: newLen_of_def p_def)
  show ?thesis
  proof (cases "S dvd L * T \<and> p < of_nat m")
    case True
    have "nat \<lfloor>p\<rfloor> \<noteq> m"
    proof
      assume "nat \<lfloor>p\<rfloor> = m"
      then have "of_nat m \<le> p" using p0 by (metis of_int_floor_le of_nat_nat zero_le_floor of_int_of_nat_eq)
      then show False using True by simp
    qed
    then have "nat \<lfloor>p\<rfloor> + 1 = m" using cases by simp
    then show ?thesis using True unfolding nl by (simp add: m_def p_def)
  next
    case False
    have "nat \<lfloor>p\<rfloor> = m"
    proof (cases "S dvd L * T")
      case False
      then show ?thesis using cases by simp
    next
      case True
      then have "of_nat m \<le> p" using False by simp
      then have "int m \<le> \<lfloor>p\<rfloor>" by (simp add: le_floor_iff)
      moreover have "0 \<le> \<lfloor>p\<rfloor>" using p0 by simp
      ultimately show ?thesis using cases by auto
    qed
    then show ?thesis using False unfolding nl by (auto simp: m_def p_def)
  qed
qed

text \<open>The product falls below the quotient only when the ratio was rounded down.\<close>

lemma product_below_quotient:
  assumes S: "0 < S" and b: "L * T < 2 ^ 51"
    and lt: "fl (of_nat L * ratio_of T S) < of_nat (L * T div S)"
  shows "ratio_of T S < of_nat T / of_nat S"
proof (rule ccontr)
  assume "\<not> ratio_of T S < of_nat T / of_nat S"
  then have ge: "of_nat T / of_nat S \<le> ratio_of T S" by simp
  define m where "m = L * T div S"
  define q :: rat where "q = of_nat (L * T) / of_nat S"
  define x where "x = of_nat L * ratio_of T S"
  have Sr: "(0::rat) < of_nat S" using S by simp
  have "(of_nat (m * S) :: rat) \<le> of_nat (L * T)"
    unfolding of_nat_le_iff m_def by simp
  then have mq: "of_nat m \<le> q" using Sr by (simp add: q_def field_simps)
  have "q = of_nat L * (of_nat T / of_nat S)" by (simp add: q_def)
  also have "\<dots> \<le> x" unfolding x_def using ge by (intro mult_left_mono) simp_all
  finally have qx: "q \<le> x" .
  have mx: "of_int (int m) \<le> x" using mq qx by simp
  have m0: "0 < m"
  proof (rule ccontr)
    assume "\<not> 0 < m"
    then have "fl x < 0" using lt by (simp add: m_def x_def)
    moreover have "0 \<le> x" unfolding x_def ratio_of_def
      by (intro mult_nonneg_nonneg fl_nonneg) simp_all
    ultimately show False using fl_nonneg [of x] by simp
  qed
  have x0: "0 < x" using mx m0 by simp
  have "(of_nat (L * T) :: rat) < of_nat (2 ^ 51)" using b by (simp only: of_nat_less_iff)
  then have lt51: "(of_nat (L * T) :: rat) < 2 ^ 51" by simp
  have "(1::rat) \<le> of_nat S" using S by simp
  then have "(of_nat (L * T) :: rat) / of_nat S \<le> of_nat (L * T) / 1"
    by (intro divide_left_mono) simp_all
  then have "q \<le> of_nat (L * T)" by (simp add: q_def)
  then have q51: "q < 2 ^ 51" using lt51 by simp
  have q0: "0 \<le> q" by (simp add: q_def)
  have r0: "(0::rat) \<le> of_nat T / of_nat S" by simp
  have "\<bar>fl (of_nat T / of_nat S) - of_nat T / of_nat S\<bar> \<le> (of_nat T / of_nat S) / 2 ^ 53"
    using fl_err [of "of_nat T / of_nat S :: rat"] by simp
  then have "ratio_of T S \<le> of_nat T / of_nat S + (of_nat T / of_nat S)"
    unfolding ratio_of_def using r0 by (simp add: abs_le_iff field_simps) 
  then have "x \<le> of_nat L * (of_nat T / of_nat S + of_nat T / of_nat S)"
    unfolding x_def by (intro mult_left_mono) simp_all
  also have "\<dots> = 2 * q" by (simp add: q_def)
  finally have x53: "x < 2 ^ 53" using q51 by simp
  have "of_int (int m) \<le> fl x" using mx x0 x53 by (rule fl_ge_int)
  then show False using lt by (simp add: m_def x_def)
qed

lemma ratio_of_dvd:
  assumes S: "0 < S" and dv: "S dvd T" and T: "T < 2 ^ 53"
  shows "ratio_of T S = of_nat (T div S)"
proof -
  obtain k where k: "T = S * k" using dv by (auto simp: dvd_def)
  have "k \<le> T" using S by (simp add: k)
  then have k53: "k < 2 ^ 53" using T by simp
  have "(of_nat T :: rat) / of_nat S = of_nat k" using S by (simp add: k)
  then show ?thesis using S k53 by (simp add: ratio_of_def fl_of_nat k)
qed

lemma newLen_of_dvd:
  assumes S: "0 < S" and dv: "S dvd T" and b: "L * T < 2 ^ 51"
  shows "newLen_of (ratio_of T S) L = L * (T div S)"
proof (cases "L = 0")
  case True
  then show ?thesis by (simp add: newLen_of_def fl_def)
next
  case False
  have "T \<le> L * T" using False by simp
  then have "T < 2 ^ 51" using b by (rule order.strict_trans1)
  then have T: "T < 2 ^ 53" by (rule order.strict_trans) simp
  have "T div S \<le> T" by simp
  then have "L * (T div S) \<le> L * T" by simp
  then have "L * (T div S) < 2 ^ 51" using b by (rule order.strict_trans1)
  then have lk: "L * (T div S) < 2 ^ 53" by (rule order.strict_trans) simp
  have "fl (of_nat L * of_nat (T div S)) = of_nat (L * (T div S))"
    using fl_of_nat [OF lk] by simp
  then show ?thesis
    unfolding newLen_of_def ratio_of_dvd [OF S dv T] by (simp only: floor_of_nat nat_int)
qed

lemma product_5512: "fl (689 * ratio_of 48000 5512) < 6000"
  apply (simp add: ratio_of_def)
  apply code_simp
  done

text \<open>
  Claim C4, amended (resampler output length). Let the source rate be positive and let
  \<open>inputLength * targetRate\<close> be below \<open>2 ^ 51\<close> (a typed array is far shorter). The resampler
  returns an array of length \<open>\<lfloor>inputLength * targetRate / sourceRate\<rfloor>\<close>, with one
  exception: when the rates differ, \<open>sourceRate\<close> divides \<open>inputLength * targetRate\<close> and the
  binary64 product of the length and the ratio \<open>targetRate / sourceRate\<close> falls below the
  exact quotient, the length is one less. The product can fall below the quotient only
  when the binary64 ratio is smaller than the exact ratio: never when \<open>sourceRate\<close>
  divides \<open>targetRate\<close>, where the length is \<open>inputLength * (targetRate / sourceRate)\<close>. An
  empty input gives an empty output.
\<close>

theorem resample_length_amended:
  assumes "0 < S" and "length samples * T < 2 ^ 51"
  shows "\<exists>out. resample_to T S samples = Inr out
           \<and> length out
               = (if S \<noteq> T \<and> S dvd length samples * T
                     \<and> fl (of_nat (length samples) * ratio_of T S)
                         < of_nat (length samples * T div S)
                  then length samples * T div S - 1
                  else length samples * T div S)
           \<and> (fl (of_nat (length samples) * ratio_of T S) < of_nat (length samples * T div S)
                \<longrightarrow> ratio_of T S < of_nat T / of_nat S)
           \<and> (S dvd T \<longrightarrow> length out = length samples * (T div S))
           \<and> (length samples = 0 \<longrightarrow> length out = 0)"
proof -
  have below: "fl (of_nat (length samples) * ratio_of T S) < of_nat (length samples * T div S)
                \<longrightarrow> ratio_of T S < of_nat T / of_nat S"
    using product_below_quotient [OF assms] by simp
  show ?thesis
  proof (cases "S = T")
    case True
    then show ?thesis using assms below by (simp add: resample_to_def)
  next
    case False
    define out where "out = map (\<lambda>i. to_int16 (interpolate (ratio_of T S) samples i))
                      [0..<newLen_of (ratio_of T S) (length samples)]"
    have run: "resample_to T S samples = Inr out"
      unfolding out_def by (rule resample_to_eq [OF False assms(1)])
    have len: "length out = newLen_of (ratio_of T S) (length samples)"
      by (simp add: out_def)
    have a: "length out
               = (if S \<noteq> T \<and> S dvd length samples * T
                     \<and> fl (of_nat (length samples) * ratio_of T S)
                         < of_nat (length samples * T div S)
                  then length samples * T div S - 1
                  else length samples * T div S)"
      unfolding len newLen_of_exact [OF assms] using False by simp
    have c: "S dvd T \<longrightarrow> length out = length samples * (T div S)"
      unfolding len using newLen_of_dvd [OF assms(1) _ assms(2)] by simp
    have d: "length samples = 0 \<longrightarrow> length out = 0"
      unfolding len by (simp add: newLen_of_def fl_def)
    show ?thesis using run a below c d by blast
  qed
qed

text \<open>
  689 samples at 5512 Hz, where the product falls below 6000, and three samples at 24000 Hz,
  where the source rate divides the target rate.
\<close>

theorem resample_length_amended_witness:
  "(0::nat) < 5512 \<and> length (replicate 689 (0 :: int16)) * 48000 < 2 ^ 51
   \<and> fl (of_nat (length (replicate 689 (0 :: int16))) * ratio_of 48000 5512)
       < of_nat (length (replicate 689 (0 :: int16)) * 48000 div 5512)
   \<and> ratio_of 48000 5512 < of_nat 48000 / of_nat 5512
   \<and> (\<exists>out. resample_to 48000 5512 (replicate 689 0) = Inr out \<and> length out = 5999)
   \<and> (24000 :: nat) dvd 48000
   \<and> (\<exists>out. resample_to 48000 24000 (replicate 3 0) = Inr out \<and> length out = 6)"
proof -
  have h1: "(0::nat) < 5512" by simp
  have h2: "length (replicate 689 (0 :: int16)) * 48000 < 2 ^ 51" by simp
  have q: "(689 * 48000) div 5512 = (6000 :: nat)" by simp
  have p: "fl (of_nat (length (replicate 689 (0 :: int16))) * ratio_of 48000 5512)
       < of_nat (length (replicate 689 (0 :: int16)) * 48000 div 5512)"
    using product_5512 by (simp add: q)
  have a: "ratio_of 48000 5512 < of_nat 48000 / of_nat 5512
           \<and> (\<exists>out. resample_to 48000 5512 (replicate 689 0) = Inr out \<and> length out = 5999)"
    using resample_length_amended [OF h1 h2] p by (auto simp: q)
  have g1: "(0::nat) < 24000" by simp
  have g2: "length (replicate 3 (0 :: int16)) * 48000 < 2 ^ 51" by simp
  have b: "\<exists>out. resample_to 48000 24000 (replicate 3 0) = Inr out \<and> length out = 6"
    using resample_length_amended [OF g1 g2] by auto
  show ?thesis using h1 h2 p a b by simp
qed

section \<open>Claim about the interpolated samples\<close>

lemma rne_le:
  assumes "y \<le> of_int N"
  shows "rne y \<le> N"
proof -
  have f: "\<lfloor>y\<rfloor> \<le> N" using assms by (simp add: floor_le_iff)
  show ?thesis
  proof (cases "\<lfloor>y\<rfloor> = N")
    case True
    then have "of_int N \<le> y" by (metis of_int_floor_le)
    then have "y = of_int N" using assms by simp
    then show ?thesis by (simp add: rne_of_int)
  next
    case False
    then have "\<lfloor>y\<rfloor> + 1 \<le> N" using f by simp
    then show ?thesis using f unfolding rne_def Let_def by auto
  qed
qed

lemma fl_nonpos: "x \<le> 0 \<Longrightarrow> fl x \<le> 0"
proof -
  assume x: "x \<le> 0"
  have "\<bar>x\<bar> / 2 ^ 53 \<le> - x" using x by (simp add: field_simps)
  then show ?thesis using fl_err [of x] by linarith
qed

lemma fl_le_one:
  assumes "x \<le> 1"
  shows "fl x \<le> 1"
proof (cases "x \<le> 0")
  case True
  then show ?thesis using fl_nonpos [of x] by simp
next
  case False
  then have x: "0 < x" by simp
  define e where "e = ilog2 \<bar>x\<bar>"
  define u :: rat where "u = 2 powi (e - 52)"
  have u: "0 < u" by (simp add: u_def)
  have "2 powi e \<le> x" using ilog2_le [of "\<bar>x\<bar>"] x by (simp add: e_def)
  then have "(2::rat) powi e \<le> 2 powi 0" using assms by simp
  then have e: "e \<le> 0"
    using power_int_strict_increasing [of 0 e "2::rat"] by (cases "e \<le> 0") simp_all
  define N :: int where "N = 2 ^ nat (52 - e)"
  have "(of_int N :: rat) = 2 powi (52 - e)" using e by (simp add: N_def power_int_def)
  then have Nu: "of_int N * u = 1" by (simp add: u_def flip: power_int_add)
  have "x / u \<le> 1 / u" using assms u by (simp add: divide_right_mono)
  also have "1 / u = of_int N" using Nu u by (simp add: field_simps)
  finally have "rne (x / u) \<le> N" by (rule rne_le)
  then have "(of_int (rne (x / u)) :: rat) \<le> of_int N" by (simp only: of_int_le_iff)
  then have "of_int (rne (x / u)) * u \<le> of_int N * u" using u by (intro mult_right_mono) simp_all
  then have le: "of_int (rne (x / u)) * u \<le> 1" by (simp only: Nu)
  have "fl x = of_int (rne (x / u)) * u"
    using x by (simp add: fl_def e_def u_def Let_def)
  then show ?thesis using le by simp
qed

lemma round_trip_margin:
  fixes A q F i :: rat
  assumes "F \<le> A + A / 2 ^ 53" "i + 1 \<le> F" "A \<le> q + q / 2 ^ 53" "q < 2 ^ 51" "0 \<le> q" "0 \<le> i"
  shows "i + i / 2 ^ 53 < A"
proof -
  have "i \<le> A + A / 2 ^ 53 - 1" using assms by linarith
  then have "i + i / 2 ^ 53 \<le> (A + A / 2 ^ 53 - 1) + (A + A / 2 ^ 53 - 1) / 2 ^ 53"
    by (simp add: field_simps)
  moreover have "A < 2 ^ 52" using assms by simp
  ultimately show ?thesis by (simp add: field_simps)
qed

lemma ratio_of_pos: "0 < S \<Longrightarrow> 0 < T \<Longrightarrow> 0 < ratio_of T S"
  unfolding ratio_of_def by (rule fl_pos) simp

text \<open>The source position of every output index lies inside the input.\<close>

lemma idx_bound:
  assumes S: "0 < S" and T: "0 < T" and b: "L * T < 2 ^ 51"
    and i: "i < newLen_of (ratio_of T S) L"
  shows "fl (of_nat i / ratio_of T S) < of_nat L"
proof -
  define r' where "r' = ratio_of T S"
  define r :: rat where "r = of_nat T / of_nat S"
  define A where "A = of_nat L * r'"
  define q :: rat where "q = of_nat L * r"
  define x where "x = of_nat i / r'"
  have r'pos: "0 < r'" unfolding r'_def by (rule ratio_of_pos [OF S T])
  have r0: "0 \<le> r" by (simp add: r_def)
  have A0: "0 \<le> A" using r'pos by (simp add: A_def)
  have q0: "0 \<le> q" using r0 by (simp add: q_def)
  \<comment> \<open>the product of the length and the exact ratio is below \<open>2 ^ 51\<close>\<close>
  have Sr: "(1::rat) \<le> of_nat S" using S by simp
  have "q = of_nat (L * T) / of_nat S" by (simp add: q_def r_def)
  also have "\<dots> \<le> of_nat (L * T) / 1" using Sr by (intro divide_left_mono) simp_all
  also have "\<dots> < of_nat (2 ^ 51)" using b by (simp only: of_nat_less_iff div_by_1)
  finally have q51: "q < 2 ^ 51" by simp
  \<comment> \<open>the rounded ratio\<close>
  have "\<bar>r' - r\<bar> \<le> r / 2 ^ 53"
    using fl_err [of r] r0 by (simp add: r'_def ratio_of_def r_def)
  then have "r' \<le> r + r / 2 ^ 53" by linarith
  then have "of_nat L * r' \<le> of_nat L * (r + r / 2 ^ 53)" by (intro mult_left_mono) simp_all
  then have Aq: "A \<le> q + q / 2 ^ 53" by (simp add: A_def q_def algebra_simps)
  \<comment> \<open>the rounded new length\<close>
  have "i + 1 \<le> nat \<lfloor>fl A\<rfloor>" using i by (simp add: newLen_of_def r'_def A_def)
  then have "int i + 1 \<le> \<lfloor>fl A\<rfloor>" by linarith
  then have "(of_int (int i + 1) :: rat) \<le> fl A" by (simp only: le_floor_iff)
  then have i1: "of_nat i + 1 \<le> fl A" by simp
  have "fl A \<le> A + A / 2 ^ 53" using fl_err [of A] A0 by linarith
  then have iA: "(of_nat i :: rat) + of_nat i / 2 ^ 53 < A"
    using i1 Aq q51 q0 by (rule round_trip_margin) simp
  \<comment> \<open>the rounded quotient\<close>
  have x0: "0 \<le> x" using r'pos by (simp add: x_def)
  have "fl x \<le> x + x / 2 ^ 53" using fl_err [of x] x0 by linarith
  also have "x + x / 2 ^ 53 = (of_nat i + of_nat i / 2 ^ 53) / r'"
    by (simp add: x_def add_divide_distrib)
  also have "\<dots> < A / r'" using iA r'pos by (rule divide_strict_right_mono)
  also have "A / r' = of_nat L" using r'pos by (simp add: A_def)
  finally show ?thesis by (simp add: x_def r'_def)
qed

lemma fl_within:
  assumes "- B \<le> x" "x \<le> B"
  shows "x - B / 2 ^ 53 \<le> fl x \<and> fl x \<le> x + B / 2 ^ 53"
proof -
  have "\<bar>x\<bar> \<le> B" using assms by (simp add: abs_le_iff)
  then have "\<bar>x\<bar> / 2 ^ 53 \<le> B / 2 ^ 53" by (simp add: divide_right_mono)
  then have "\<bar>fl x - x\<bar> \<le> B / 2 ^ 53" using fl_err [of x] by linarith
  then show ?thesis by (intro conjI; linarith)
qed

text \<open>The interpolated value of two 16-bit samples rounds into the 16-bit range.\<close>

lemma interp_range:
  fixes frac :: rat and s0 s1 :: int
  assumes f: "0 \<le> frac" "frac \<le> 1"
    and s0: "- 32768 \<le> s0" "s0 \<le> 32767" and s1: "- 32768 \<le> s1" "s1 \<le> 32767"
  shows "- 32768 \<le> math_round (fl (fl (of_int s0 * fl (1 - frac)) + fl (of_int s1 * frac)))
       \<and> math_round (fl (fl (of_int s0 * fl (1 - frac)) + fl (of_int s1 * frac))) \<le> 32767"
proof -
  define a where "a = fl (1 - frac)"
  define u0 where "u0 = of_int s0 * a"
  define u1 where "u1 = of_int s1 * frac"
  define w where "w = fl u0 + fl u1"
  have a0: "0 \<le> a" unfolding a_def using f by (intro fl_nonneg) simp
  have a1: "a \<le> 1" unfolding a_def using f by (intro fl_le_one) simp
  have ae: "1 - frac - 1 / 2 ^ 53 \<le> a \<and> a \<le> 1 - frac + 1 / 2 ^ 53"
    unfolding a_def using f by (intro fl_within) simp_all
  have "(of_int (- 32768) :: rat) \<le> of_int s0" "(of_int s0 :: rat) \<le> of_int 32767"
    using s0 by (simp_all only: of_int_le_iff)
  then have r0: "(- 32768 :: rat) \<le> of_int s0" "(of_int s0 :: rat) \<le> 32767" by simp_all
  have "(of_int (- 32768) :: rat) \<le> of_int s1" "(of_int s1 :: rat) \<le> of_int 32767"
    using s1 by (simp_all only: of_int_le_iff)
  then have r1: "(- 32768 :: rat) \<le> of_int s1" "(of_int s1 :: rat) \<le> 32767" by simp_all
  have u0u: "u0 \<le> 32767 * a" unfolding u0_def using r0 a0 by (intro mult_right_mono) simp_all
  have u0l: "- 32768 * a \<le> u0" unfolding u0_def using r0 a0 by (intro mult_right_mono) simp_all
  have u1u: "u1 \<le> 32767 * frac" unfolding u1_def using r1 f by (intro mult_right_mono) simp_all
  have u1l: "- 32768 * frac \<le> u1" unfolding u1_def using r1 f by (intro mult_right_mono) simp_all
  have b0: "- 32768 \<le> u0" "u0 \<le> 32768" using u0u u0l a0 a1 by linarith+
  have b1: "- 32768 \<le> u1" "u1 \<le> 32768" using u1u u1l f by linarith+
  have e0: "u0 - 32768 / 2 ^ 53 \<le> fl u0 \<and> fl u0 \<le> u0 + 32768 / 2 ^ 53"
    using b0 by (intro fl_within) simp_all
  have e1: "u1 - 32768 / 2 ^ 53 \<le> fl u1 \<and> fl u1 \<le> u1 + 32768 / 2 ^ 53"
    using b1 by (intro fl_within) simp_all
  have su: "u0 + u1 \<le> 32767 + 32767 / 2 ^ 53" using u0u u1u ae by simp
  have sl: "- 32768 - 32768 / 2 ^ 53 \<le> u0 + u1" using u0l u1l ae by simp
  have wu: "w \<le> 32767 + 1 / 2 ^ 36" unfolding w_def using e0 e1 su by simp
  have wl: "- 32768 - 1 / 2 ^ 36 \<le> w" unfolding w_def using e0 e1 sl by simp
  have ew: "w - 32769 / 2 ^ 53 \<le> fl w \<and> fl w \<le> w + 32769 / 2 ^ 53"
    using wu wl by (intro fl_within) simp_all
  have vu: "fl w + 1 / 2 < 32768" using ew wu by simp
  have vl: "- 32768 \<le> fl w + 1 / 2" using ew wl by simp
  have "\<lfloor>fl w + 1 / 2\<rfloor> < 32768" using vu by (simp add: floor_less_iff)
  moreover have "- 32768 \<le> \<lfloor>fl w + 1 / 2\<rfloor>" using vl by (simp add: le_floor_iff)
  ultimately show ?thesis
    unfolding math_round_def w_def u0_def u1_def a_def by simp
qed

lemma to_int16_of_int: "to_int16 (Some (of_int n)) = word_of_int n"
  by (simp add: to_int16_def)

lemma clamp16_id: "- 32768 \<le> v \<Longrightarrow> v \<le> 32767 \<Longrightarrow> clamp16 v = v"
  by (simp add: clamp16_def)

lemma frac_unit: "0 \<le> fl (x - of_int \<lfloor>x\<rfloor>) \<and> fl (x - of_int \<lfloor>x\<rfloor>) \<le> 1"
proof
  show "0 \<le> fl (x - of_int \<lfloor>x\<rfloor>)" by (intro fl_nonneg) simp
  have "x - of_int \<lfloor>x\<rfloor> \<le> 1" by linarith
  then show "fl (x - of_int \<lfloor>x\<rfloor>) \<le> 1" by (rule fl_le_one)
qed

lemma interpolate_in_bounds:
  assumes lo: "0 \<le> \<lfloor>fl (of_nat i / ratio)\<rfloor>"
    and hi: "\<lfloor>fl (of_nat i / ratio)\<rfloor> < int (length samples)"
  shows "interpolate ratio samples i
           = (let idx = fl (of_nat i / ratio);
                  i0 = \<lfloor>idx\<rfloor>;
                  i1 = min (i0 + 1) (int (length samples) - 1);
                  frac = fl (idx - of_int i0)
              in Some (of_int (math_round
                   (fl (fl (of_int (sint (samples ! nat i0)) * fl (1 - frac))
                        + fl (of_int (sint (samples ! nat i1)) * frac))))))"
proof -
  have len: "0 < int (length samples)" using lo hi by linarith
  have i1: "0 \<le> min (\<lfloor>fl (of_nat i / ratio)\<rfloor> + 1) (int (length samples) - 1)"
    "min (\<lfloor>fl (of_nat i / ratio)\<rfloor> + 1) (int (length samples) - 1) < int (length samples)"
    using lo hi len by linarith+
  have g0: "ta_get samples \<lfloor>fl (of_nat i / ratio)\<rfloor>
              = Some (sint (samples ! nat \<lfloor>fl (of_nat i / ratio)\<rfloor>))"
    using lo hi by (simp only: ta_get_def) simp
  have g1: "ta_get samples (min (\<lfloor>fl (of_nat i / ratio)\<rfloor> + 1) (int (length samples) - 1))
              = Some (sint (samples ! nat (min (\<lfloor>fl (of_nat i / ratio)\<rfloor> + 1)
                                              (int (length samples) - 1))))"
    using i1 by (simp only: ta_get_def) simp
  show ?thesis
    unfolding interpolate_def Let_def g0 g1
    by (simp add: to_number_def js_mul_def js_add_def js_round_def nan2_def)
qed

text \<open>The error of the interpolation in binary64, for a fraction in the unit interval.\<close>

lemma interp_err:
  fixes frac :: rat and s0 s1 :: int
  assumes f: "0 \<le> frac" "frac \<le> 1"
    and s0: "- 32768 \<le> s0" "s0 \<le> 32767" and s1: "- 32768 \<le> s1" "s1 \<le> 32767"
  shows "\<bar>fl (fl (of_int s0 * fl (1 - frac)) + fl (of_int s1 * frac))
          - (of_int s0 * (1 - frac) + of_int s1 * frac)\<bar> \<le> 1 / 2 ^ 35"
proof -
  define d :: rat where "d = 1 / 2 ^ 53"
  define a where "a = fl (1 - frac)"
  define u0 where "u0 = of_int s0 * a"
  define u1 where "u1 = of_int s1 * frac"
  define w where "w = fl u0 + fl u1"
  define t0 :: rat where "t0 = of_int s0 * (1 - frac)"
  have d: "0 < d" "d \<le> 1" by (simp_all add: d_def)
  have a0: "0 \<le> a" unfolding a_def using f by (intro fl_nonneg) simp
  have a1: "a \<le> 1" unfolding a_def using f by (intro fl_le_one) simp
  have "\<bar>1 - frac\<bar> \<le> 1" using f by linarith
  then have ea: "\<bar>a - (1 - frac)\<bar> \<le> 1 * d" unfolding a_def d_def by (rule fl_err_le)
  have "(of_int (- 32768) :: rat) \<le> of_int s0" "(of_int s0 :: rat) \<le> of_int 32767"
    using s0 by (simp_all only: of_int_le_iff)
  then have r0: "(- 32768 :: rat) \<le> of_int s0" "(of_int s0 :: rat) \<le> 32767" by simp_all
  have "(of_int (- 32768) :: rat) \<le> of_int s1" "(of_int s1 :: rat) \<le> of_int 32767"
    using s1 by (simp_all only: of_int_le_iff)
  then have r1: "(- 32768 :: rat) \<le> of_int s1" "(of_int s1 :: rat) \<le> 32767" by simp_all
  have as0: "\<bar>of_int s0 :: rat\<bar> \<le> 32768" using r0 by linarith
  have u0u: "u0 \<le> 32767 * a" unfolding u0_def using r0 a0 by (intro mult_right_mono) simp_all
  have u0l: "- 32768 * a \<le> u0" unfolding u0_def using r0 a0 by (intro mult_right_mono) simp_all
  have u1u: "u1 \<le> 32767 * frac" unfolding u1_def using r1 f by (intro mult_right_mono) simp_all
  have u1l: "- 32768 * frac \<le> u1" unfolding u1_def using r1 f by (intro mult_right_mono) simp_all
  have b0: "\<bar>u0\<bar> \<le> 32768" using u0u u0l a0 a1 by linarith
  have b1: "\<bar>u1\<bar> \<le> 32768" using u1u u1l f by linarith
  have e0: "\<bar>fl u0 - u0\<bar> \<le> 32768 * d" unfolding d_def using b0 by (rule fl_err_le)
  have e1: "\<bar>fl u1 - u1\<bar> \<le> 32768 * d" unfolding d_def using b1 by (rule fl_err_le)
  have "\<bar>u0 - t0\<bar> = \<bar>of_int s0\<bar> * \<bar>a - (1 - frac)\<bar>"
    by (simp add: u0_def t0_def abs_mult flip: right_diff_distrib)
  also have "\<dots> \<le> 32768 * (1 * d)"
    using as0 ea by (intro mult_mono) simp_all
  finally have d0: "\<bar>u0 - t0\<bar> \<le> 32768 * d" by simp
  have wb: "\<bar>w\<bar> \<le> 131072" unfolding w_def using e0 e1 b0 b1 d by linarith
  have ew: "\<bar>fl w - w\<bar> \<le> 131072 * d" unfolding d_def using wb by (rule fl_err_le)
  have "\<bar>fl w - (t0 + u1)\<bar> \<le> 229376 * d"
    using ew e0 e1 d0 unfolding w_def by linarith
  also have "229376 * d \<le> 1 / 2 ^ 35" by (simp add: d_def)
  finally show ?thesis by (simp add: w_def u0_def u1_def a_def t0_def)
qed

lemma sample_diff:
  "\<bar>(of_int (sint (a :: int16)) :: rat) - of_int (sint (b :: int16))\<bar> \<le> 65535"
proof -
  have "\<bar>sint a - sint b\<bar> \<le> 65535"
    using sint_int16_range [of a] sint_int16_range [of b] by linarith
  then have "(of_int \<bar>sint a - sint b\<bar> :: rat) \<le> of_int 65535" by (simp only: of_int_le_iff)
  then show ?thesis by simp
qed

lemma scaled_diff:
  fixes d :: rat
  assumes "0 \<le> d"
  shows "\<bar>((of_int (sint (a :: int16)) :: rat) - of_int (sint (b :: int16))) * d\<bar> \<le> 65535 * d"
proof -
  have "\<bar>((of_int (sint a) :: rat) - of_int (sint b)) * d\<bar>
          = \<bar>(of_int (sint a) :: rat) - of_int (sint b)\<bar> * d"
    using assms by (simp add: abs_mult)
  also have "\<dots> \<le> 65535 * d" using sample_diff [of a b] assms by (rule mult_right_mono)
  finally show ?thesis .
qed

lemma scaled_diff_abs:
  fixes t :: rat
  shows "\<bar>((of_int (sint (a :: int16)) :: rat) - of_int (sint (b :: int16))) * t\<bar> \<le> 65535 * \<bar>t\<bar>"
proof -
  have "\<bar>((of_int (sint a) :: rat) - of_int (sint b)) * t\<bar>
          = \<bar>(of_int (sint a) :: rat) - of_int (sint b)\<bar> * \<bar>t\<bar>"
    by (simp add: abs_mult)
  also have "\<dots> \<le> 65535 * \<bar>t\<bar>" using sample_diff [of a b] by (rule mult_right_mono) simp
  finally show ?thesis .
qed

text \<open>The interpolated value changes by at most 65535 times the change of the position.\<close>

lemma interp_at_lipschitz_le:
  assumes x': "0 \<le> x'" and le: "x' \<le> x" and near: "x < x' + 1"
    and xL: "x < of_nat (length xs)"
  shows "\<bar>interp_at xs x - interp_at xs x'\<bar> \<le> 65535 * (x - x')"
proof -
  define n where "n = \<lfloor>x\<rfloor>"
  define L where "L = int (length xs)"
  have n0: "0 \<le> n" using x' le by (simp add: n_def)
  have nL: "n < L" using xL by (simp add: n_def L_def floor_less_iff)
  have fl': "\<lfloor>x'\<rfloor> = n \<or> \<lfloor>x'\<rfloor> = n - 1"
  proof -
    have "\<lfloor>x'\<rfloor> \<le> \<lfloor>x\<rfloor>" using le by (rule floor_mono)
    moreover have "\<lfloor>x\<rfloor> \<le> \<lfloor>x' + 1\<rfloor>" using near by (intro floor_mono) simp
    ultimately show ?thesis by (simp add: n_def) linarith
  qed
  define m where "m = min (n + 1) (L - 1)"
  have ex: "interp_at xs x
              = of_int (sint (xs ! nat n))
                + (of_int (sint (xs ! nat m)) - of_int (sint (xs ! nat n))) * (x - of_int n)"
    unfolding interp_at_def Let_def m_def n_def L_def by (simp add: algebra_simps)
  show ?thesis
  proof (cases "\<lfloor>x'\<rfloor> = n")
    case True
    have ex': "interp_at xs x'
              = of_int (sint (xs ! nat n))
                + (of_int (sint (xs ! nat m)) - of_int (sint (xs ! nat n))) * (x' - of_int n)"
      unfolding interp_at_def Let_def True m_def L_def by (simp add: algebra_simps)
    have "interp_at xs x - interp_at xs x'
            = (of_int (sint (xs ! nat m)) - of_int (sint (xs ! nat n))) * (x - x')"
      unfolding ex ex' by (simp add: algebra_simps)
    then show ?thesis using scaled_diff [of "x - x'" "xs ! nat m" "xs ! nat n"] le by simp
  next
    case False
    then have f: "\<lfloor>x'\<rfloor> = n - 1" using fl' by simp
    have m': "min (n - 1 + 1) (int (length xs) - 1) = n" using nL by (simp add: L_def)
    have ex': "interp_at xs x'
              = of_int (sint (xs ! nat n))
                + (of_int (sint (xs ! nat (n - 1))) - of_int (sint (xs ! nat n))) * (of_int n - x')"
      unfolding interp_at_def Let_def f m' by (simp add: algebra_simps)
    have xn: "of_int n \<le> x" by (simp add: n_def)
    have x'n: "x' \<le> of_int n"
    proof -
      have "x' < of_int \<lfloor>x'\<rfloor> + 1" by linarith
      then show ?thesis by (simp add: f)
    qed
    define A where "A = (of_int (sint (xs ! nat m)) - of_int (sint (xs ! nat n))) * (x - of_int n)"
    define B where
      "B = (of_int (sint (xs ! nat (n - 1))) - of_int (sint (xs ! nat n))) * (of_int n - x')"
    have a: "\<bar>A\<bar> \<le> 65535 * (x - of_int n)"
      unfolding A_def using xn by (intro scaled_diff) simp
    have b: "\<bar>B\<bar> \<le> 65535 * (of_int n - x')"
      unfolding B_def using x'n by (intro scaled_diff) simp
    have "interp_at xs x - interp_at xs x' = A - B"
      unfolding ex ex' A_def B_def by simp
    then have "\<bar>interp_at xs x - interp_at xs x'\<bar> \<le> \<bar>A\<bar> + \<bar>B\<bar>"
      by (simp only: abs_triangle_ineq4)
    also have "\<dots> \<le> 65535 * (x - of_int n) + 65535 * (of_int n - x')"
      using a b by (rule add_mono)
    also have "\<dots> = 65535 * (x - x')" by (simp add: algebra_simps)
    finally show ?thesis .
  qed
qed

lemma interp_at_lipschitz:
  assumes "0 \<le> x" "0 \<le> x'" "\<bar>x - x'\<bar> < 1"
    and "x < of_nat (length xs)" "x' < of_nat (length xs)"
  shows "\<bar>interp_at xs x - interp_at xs x'\<bar> \<le> 65535 * \<bar>x - x'\<bar>"
proof (cases "x' \<le> x")
  case True
  then show ?thesis
    using interp_at_lipschitz_le [of x' x xs] assms by (simp add: abs_less_iff)
next
  case False
  then have "\<bar>interp_at xs x' - interp_at xs x\<bar> \<le> 65535 * (x' - x)"
    using interp_at_lipschitz_le [of x x' xs] assms by (simp add: abs_less_iff)
  then show ?thesis using False by (simp add: abs_minus_commute)
qed

text \<open>The source position computed in binary64 and the exact one.\<close>

lemma idx_err:
  assumes S: "0 < S" and T: "0 < T"
  shows "\<bar>fl (of_nat i / ratio_of T S) - of_nat i / (of_nat T / of_nat S)\<bar>
           \<le> of_nat i / (of_nat T / of_nat S) * (3 / 2 ^ 53)"
proof -
  define r :: rat where "r = of_nat T / of_nat S"
  define r' where "r' = ratio_of T S"
  define X where "X = of_nat i / r"
  define x where "x = of_nat i / r'"
  define d :: rat where "d = 1 / 2 ^ 53"
  have d: "0 < d" "d < 1" by (simp_all add: d_def)
  have r: "0 < r" using S T by (simp add: r_def)
  have r': "0 < r'" unfolding r'_def by (rule ratio_of_pos [OF S T])
  have X0: "0 \<le> X" using r by (simp add: X_def)
  have x0: "0 \<le> x" using r' by (simp add: x_def)
  have "\<bar>r' - r\<bar> \<le> r * d" using fl_err [of r] r by (simp add: r'_def ratio_of_def r_def d_def)
  then have "r - r * d \<le> r'" and "r' \<le> r + r * d" by linarith+
  then have rl: "r * (1 - d) \<le> r'" and ru: "r' \<le> r * (1 + d)"
    by (simp_all add: algebra_simps)
  have rd: "0 < r * (1 - d)" using r d by simp
  have xu: "x \<le> X / (1 - d)"
  proof -
    have "of_nat i / r' \<le> of_nat i / (r * (1 - d))"
      using rl rd by (intro divide_left_mono) (simp_all add: r')
    then show ?thesis by (simp add: x_def X_def)
  qed
  have xl: "X / (1 + d) \<le> x"
  proof -
    have "of_nat i / (r * (1 + d)) \<le> of_nat i / r'"
      using ru r' r d by (intro divide_left_mono) simp_all
    then show ?thesis by (simp add: x_def X_def)
  qed
  have "\<bar>fl x - x\<bar> \<le> x * d" using fl_err [of x] x0 by (simp add: d_def)
  then have "x - x * d \<le> fl x" and "fl x \<le> x + x * d" by linarith+
  then have fx: "x * (1 - d) \<le> fl x" "fl x \<le> x * (1 + d)"
    by (simp_all add: algebra_simps)
  have c1: "(1 + d) / (1 - d) \<le> 1 + 3 * d" by (simp add: d_def)
  have c2: "1 - 3 * d \<le> (1 - d) / (1 + d)" by (simp add: d_def)
  have "x * (1 + d) \<le> X / (1 - d) * (1 + d)"
    using xu d by (intro mult_right_mono) simp_all
  then have "fl x \<le> X / (1 - d) * (1 + d)" using fx(2) by linarith
  also have "\<dots> = X * ((1 + d) / (1 - d))" by simp
  also have "\<dots> \<le> X * (1 + 3 * d)" using c1 X0 by (rule mult_left_mono)
  finally have up: "fl x \<le> X + X * (3 * d)" by (simp add: algebra_simps)
  have "X * (1 - 3 * d) \<le> X * ((1 - d) / (1 + d))" using c2 X0 by (rule mult_left_mono)
  also have "\<dots> = X / (1 + d) * (1 - d)" by simp
  also have "\<dots> \<le> x * (1 - d)" using xl d by (intro mult_right_mono) simp_all
  also have "\<dots> \<le> fl x" by (rule fx(1))
  finally have low: "X - X * (3 * d) \<le> fl x" by (simp add: algebra_simps)
  have "\<bar>fl x - X\<bar> \<le> X * (3 * d)" using up low by linarith
  then show ?thesis by (simp add: x_def X_def r_def r'_def d_def)
qed

text \<open>The exact source position of every output index lies inside the input.\<close>

lemma exact_idx_bound:
  assumes S: "0 < S" and T: "0 < T" and b: "L * T < 2 ^ 51"
    and i: "i < newLen_of (ratio_of T S) L"
  shows "(of_nat i :: rat) / (of_nat T / of_nat S) < of_nat L"
proof -
  have "newLen_of (ratio_of T S) L \<le> L * T div S"
    unfolding newLen_of_exact [OF S b] by simp
  then have "i < L * T div S" using i by simp
  then have "Suc i \<le> L * T div S" by simp
  then have "Suc i * S \<le> L * T div S * S" by (rule mult_le_mono1)
  also have "\<dots> \<le> L * T" by simp
  finally have "i * S < L * T" using S by simp
  then have "(of_nat (i * S) :: rat) < of_nat (L * T)" by (simp only: of_nat_less_iff)
  then have "(of_nat i :: rat) * of_nat S < of_nat L * of_nat T" by simp
  then show ?thesis using T by (simp add: field_simps)
qed

lemma math_round_close:
  assumes "\<bar>a - b\<bar> \<le> 1"
  shows "\<bar>math_round a - math_round b\<bar> \<le> 1"
  using assms unfolding math_round_def by linarith

lemma math_round_same:
  assumes near: "\<bar>a - b\<bar> \<le> 1 / 8" and t: "1 / 8 < frac (b + 1 / 2)" "frac (b + 1 / 2) < 7 / 8"
  shows "math_round a = math_round b"
proof -
  define m where "m = \<lfloor>b + 1 / 2\<rfloor>"
  have f: "frac (b + 1 / 2) = b + 1 / 2 - of_int m" by (simp add: frac_def m_def)
  have "of_int m \<le> a + 1 / 2" using near t(1) unfolding f by linarith
  moreover have "a + 1 / 2 < of_int m + 1" using near t(2) unfolding f by linarith
  ultimately have "\<lfloor>a + 1 / 2\<rfloor> = m" by (rule floor_unique)
  then show ?thesis by (simp add: math_round_def m_def)
qed

lemma clamp16_close:
  assumes "- 32768 \<le> v" "v \<le> 32767"
  shows "\<bar>v - clamp16 m\<bar> \<le> \<bar>v - m\<bar>"
  using assms unfolding clamp16_def by linarith

text \<open>
  The value that the script rounds and the exact value of the formula, for an input of at
  most \<open>2 ^ 32\<close> samples.
\<close>

lemma interp_binary64_near:
  assumes S: "0 < S" and T: "0 < T" and b: "length samples * T < 2 ^ 51"
    and i: "i < newLen_of (ratio_of T S) (length samples)"
    and len: "length samples \<le> 2 ^ 32"
  shows "\<bar>(let idx = fl (of_nat i / ratio_of T S);
              i0 = \<lfloor>idx\<rfloor>;
              i1 = min (i0 + 1) (int (length samples) - 1);
              frac = fl (idx - of_int i0)
          in fl (fl (of_int (sint (samples ! nat i0)) * fl (1 - frac))
                 + fl (of_int (sint (samples ! nat i1)) * frac)))
         - interp_at samples (of_nat i / (of_nat T / of_nat S))\<bar> \<le> 1 / 8"
proof -
  define d :: rat where "d = 1 / 2 ^ 53"
  define X :: rat where "X = of_nat i / (of_nat T / of_nat S)"
  define idx where "idx = fl (of_nat i / ratio_of T S)"
  define i0 where "i0 = \<lfloor>idx\<rfloor>"
  define i1 where "i1 = min (i0 + 1) (int (length samples) - 1)"
  define f where "f = idx - of_int i0"
  define fb where "fb = fl f"
  define s0 where "s0 = sint (samples ! nat i0)"
  define s1 where "s1 = sint (samples ! nat i1)"
  define yb where "yb = fl (fl (of_int s0 * fl (1 - fb)) + fl (of_int s1 * fb))"
  define E where "E = (of_int s0 :: rat) * (1 - fb) + of_int s1 * fb"
  have r'pos: "0 < ratio_of T S" by (rule ratio_of_pos [OF S T])
  have idx0: "0 \<le> idx" unfolding idx_def using r'pos by (intro fl_nonneg) simp
  have idxL: "idx < of_nat (length samples)"
    unfolding idx_def by (rule idx_bound [OF S T b i])
  have X0: "0 \<le> X" by (simp add: X_def)
  have XL: "X < of_nat (length samples)"
    unfolding X_def by (rule exact_idx_bound [OF S T b i])
  have "(of_nat (length samples) :: rat) \<le> of_nat (2 ^ 32)" using len by (simp only: of_nat_le_iff)
  then have L32: "(of_nat (length samples) :: rat) \<le> 2 ^ 32" by simp
  have X32: "X \<le> 2 ^ 32" using XL L32 by linarith
  \<comment> \<open>the position\<close>
  have "\<bar>idx - X\<bar> \<le> X * (3 / 2 ^ 53)"
    unfolding idx_def X_def by (rule idx_err [OF S T])
  also have "\<dots> \<le> 2 ^ 32 * (3 / 2 ^ 53)" using X32 by (intro mult_right_mono) simp_all
  finally have ex: "\<bar>idx - X\<bar> \<le> 3 / 2 ^ 21" by simp
  then have ex1: "\<bar>idx - X\<bar> < 1" by simp
  \<comment> \<open>the exact interpolation at the two positions\<close>
  have "\<bar>interp_at samples idx - interp_at samples X\<bar> \<le> 65535 * \<bar>idx - X\<bar>"
    using idx0 X0 ex1 idxL XL by (rule interp_at_lipschitz)
  also have "\<dots> \<le> 65535 * (3 / 2 ^ 21)" using ex by (intro mult_left_mono) simp_all
  finally have e3: "\<bar>interp_at samples idx - interp_at samples X\<bar> \<le> 196605 / 2 ^ 21" by simp
  \<comment> \<open>the rounded fraction\<close>
  have f01: "0 \<le> f" "f \<le> 1" unfolding f_def i0_def by linarith+
  then have "\<bar>f\<bar> \<le> 1" by linarith
  then have ef: "\<bar>fb - f\<bar> \<le> 1 * (1 / 2 ^ 53)" unfolding fb_def by (rule fl_err_le)
  have fb01: "0 \<le> fb" "fb \<le> 1"
    using frac_unit [of idx] by (simp_all add: fb_def f_def i0_def)
  have "E - interp_at samples idx = (of_int s1 - of_int s0) * (fb - f)"
    unfolding E_def interp_at_def Let_def s0_def s1_def i1_def f_def i0_def
    by (simp add: algebra_simps)
  then have "\<bar>E - interp_at samples idx\<bar> \<le> 65535 * \<bar>fb - f\<bar>"
    unfolding s0_def s1_def by (simp only: scaled_diff_abs)
  also have "\<dots> \<le> 65535 * (1 * (1 / 2 ^ 53))" using ef by (intro mult_left_mono) simp_all
  finally have e2: "\<bar>E - interp_at samples idx\<bar> \<le> 65535 / 2 ^ 53" by simp
  \<comment> \<open>the rounded interpolation\<close>
  have e1: "\<bar>yb - E\<bar> \<le> 1 / 2 ^ 35"
    unfolding yb_def E_def s0_def s1_def
    using sint_int16_range [of "samples ! nat i0"] sint_int16_range [of "samples ! nat i1"]
    by (intro interp_err fb01) simp_all
  have "\<bar>yb - interp_at samples X\<bar>
          \<le> 1 / 2 ^ 35 + 65535 / 2 ^ 53 + 196605 / 2 ^ 21"
    using e1 e2 e3 by linarith
  also have "\<dots> \<le> 1 / 8" by simp
  finally show ?thesis
    unfolding yb_def s0_def s1_def i1_def fb_def f_def i0_def idx_def X_def Let_def .
qed

lemma fl_half: "fl (1 / 2) = 1 / 2"
  using fl_exact [of 1 "- 1"] by simp

lemma ratio_doubling: "ratio_of 48000 24000 = 2"
  using fl_of_int [of 2] by (simp add: ratio_of_def)

lemma newLen_doubling: "newLen_of 2 2 = 4"
  using fl_of_int [of 4] by (simp add: newLen_of_def)

lemma floor_half: "\<lfloor>(1::rat) / 2\<rfloor> = 0"
  using floor_divide_of_int_eq [of 1 2, where ?'a = rat] by simp

lemma spec_sample_binary64_doubling: "spec_sample_binary64 48000 24000 [0, 100] 1 = 50"
proof -
  have a: "fl 2 = 2" using fl_of_int [of 2] by simp
  have b: "fl 50 = 50" using fl_of_int [of 50] by simp
  have d: "math_round 50 = 50" using math_round_of_int [of 50] by simp
  show ?thesis
    by (simp add: spec_sample_binary64_def Let_def a b floor_half d fl_half fl_zero clamp16_def)
qed

lemma interp_at_doubling: "interp_at [0, 100] (1 / (48000 / 24000)) = 50"
  by (simp add: interp_at_def Let_def floor_half)

lemma frac_doubling: "frac ((50::rat) + 1 / 2) = 1 / 2"
proof -
  have "\<lfloor>(101::rat) / 2\<rfloor> = 50" using floor_divide_of_int_eq [of 101 2, where ?'a = rat] by simp
  then show ?thesis by (simp add: frac_def)
qed

lemma newLen_44100: "newLen_of (ratio_of 48000 44100) (length [0, 0, 0, 0, 20 :: int16]) = 5"
  apply (simp add: newLen_of_def ratio_of_def)
  apply code_simp
  done

lemma interpolate_44100: "interpolate (ratio_of 48000 44100) [0, 0, 0, 0, 20] 4 = Some 13"
  apply (simp add: interpolate_def ratio_of_def Let_def)
  apply code_simp
  done

lemma spec_sample_44100: "spec_sample 48000 44100 [0, 0, 0, 0, 20] 4 = 14"
  apply (simp add: spec_sample_def Let_def)
  apply code_simp
  done

text \<open>
  Claim C6 as stated fails. From 44100 Hz to 48000 Hz the output index 4 has the source
  position 3.675; with the input samples 0, 0, 0, 0, 20 the formula gives
  \<open>20 * 0.675 = 13.5\<close>, which rounds to 14. The script computes the position, the fraction
  and the product in binary64, gets a value just below 13.5 and stores 13.
\<close>

theorem resample_sample_counterexample:
  "map_sum id (\<lambda>out. sint (out ! 4)) (resample 44100 [0, 0, 0, 0, 20]) = Inr 13
   \<and> spec_sample 48000 44100 [0, 0, 0, 0, 20] 4 = 14"
proof -
  have run: "resample_to 48000 44100 [0, 0, 0, 0, 20]
               = Inr (map (\<lambda>i. to_int16 (interpolate (ratio_of 48000 44100) [0, 0, 0, 0, 20] i))
                        [0..<newLen_of (ratio_of 48000 44100) (length [0, 0, 0, 0, 20 :: int16])])"
    by (rule resample_to_eq) simp_all
  have "map (\<lambda>i. to_int16 (interpolate (ratio_of 48000 44100) [0, 0, 0, 0, 20] i)) [0..<5] ! 4
          = to_int16 (interpolate (ratio_of 48000 44100) [0, 0, 0, 0, 20] 4)"
    by (simp only: nth_map_upt) simp
  then show ?thesis
    unfolding resample_def targetRate_def run newLen_44100
    by (simp add: interpolate_44100 to_int16_def spec_sample_44100)
qed

text \<open>
  Claim C6, amended (per-sample formula). Let the rates be positive and distinct and let
  \<open>inputLength * targetRate\<close> be below \<open>2 ^ 51\<close>. Every sample of the output is the value of
  the formula when the result of each of its operations is rounded to binary64: with
  \<open>ratio = targetRate / sourceRate\<close>, \<open>idx = i / ratio\<close>, \<open>i0 = \<lfloor>idx\<rfloor>\<close>,
  \<open>i1 = min (i0 + 1) (inputLength - 1)\<close> and \<open>frac = idx - i0\<close> it is the rounded value of
  \<open>input[i0] * (1 - frac) + input[i1] * frac\<close>, clamped to the 16-bit range. The script
  does not clamp: it stores the rounded value into an \<^verbatim>\<open>Int16Array\<close>, which wraps; the
  value is always inside the range, so both agree. The index \<open>i0\<close> always lies inside the
  input, so the script never reads \<^verbatim>\<open>undefined\<close>. For an input of at most \<open>2 ^ 32\<close> samples
  the output sample differs from the value of the formula in exact arithmetic by at most
  1, and it is equal to it whenever the exact interpolated value is more than \<open>1 / 8\<close> away
  from the nearest tie of the rounding.
\<close>

theorem resample_sample_formula:
  assumes "S \<noteq> T" and "0 < S" and "0 < T" and "length samples * T < 2 ^ 51"
    and "resample_to T S samples = Inr out" and "i < length out"
  shows "sint (out ! i) = spec_sample_binary64 T S samples i
       \<and> 0 \<le> \<lfloor>fl (of_nat i / fl (of_nat T / of_nat S))\<rfloor>
       \<and> \<lfloor>fl (of_nat i / fl (of_nat T / of_nat S))\<rfloor> < int (length samples)
       \<and> (length samples \<le> 2 ^ 32
            \<longrightarrow> \<bar>sint (out ! i) - spec_sample T S samples i\<bar> \<le> 1
               \<and> (1 / 8 < frac (interp_at samples (of_nat i / (of_nat T / of_nat S)) + 1 / 2)
                  \<and> frac (interp_at samples (of_nat i / (of_nat T / of_nat S)) + 1 / 2) < 7 / 8
                    \<longrightarrow> sint (out ! i) = spec_sample T S samples i))"
proof -
  define r' where "r' = ratio_of T S"
  define n where "n = newLen_of r' (length samples)"
  have out: "out = map (\<lambda>i. to_int16 (interpolate r' samples i)) [0..<n]"
    using assms(5) resample_to_eq [OF assms(1,2), of samples] by (simp add: r'_def n_def)
  have i: "i < n" using assms(6) by (simp add: out)
  have i': "i < newLen_of (ratio_of T S) (length samples)" using i by (simp add: n_def r'_def)
  have nth: "out ! i = to_int16 (interpolate r' samples i)" using i by (simp add: out)
  define idx where "idx = fl (of_nat i / r')"
  have r'pos: "0 < r'" unfolding r'_def by (rule ratio_of_pos [OF assms(2,3)])
  have "0 \<le> idx" unfolding idx_def using r'pos by (intro fl_nonneg) simp
  then have lo: "0 \<le> \<lfloor>idx\<rfloor>" by simp
  have "idx < of_nat (length samples)"
    unfolding idx_def r'_def by (rule idx_bound [OF assms(2,3,4) i'])
  then have hi: "\<lfloor>idx\<rfloor> < int (length samples)" by (simp add: floor_less_iff)
  define i1 where "i1 = min (\<lfloor>idx\<rfloor> + 1) (int (length samples) - 1)"
  define frc where "frc = fl (idx - of_int \<lfloor>idx\<rfloor>)"
  define yb where "yb = fl (fl (of_int (sint (samples ! nat \<lfloor>idx\<rfloor>)) * fl (1 - frc))
                            + fl (of_int (sint (samples ! nat i1)) * frc))"
  define v where "v = math_round yb"
  define Y where "Y = interp_at samples (of_nat i / (of_nat T / of_nat S))"
  have f: "0 \<le> frc" "frc \<le> 1" using frac_unit [of idx] by (simp_all add: frc_def)
  have val: "interpolate r' samples i = Some (of_int v)"
    using interpolate_in_bounds [of i r' samples] lo hi
    by (simp add: idx_def Let_def v_def yb_def frc_def i1_def)
  have range: "- 32768 \<le> v \<and> v \<le> 32767"
    unfolding v_def yb_def
    using sint_int16_range [of "samples ! nat \<lfloor>idx\<rfloor>"] sint_int16_range [of "samples ! nat i1"]
    by (intro interp_range f) simp_all
  have sv: "sint (out ! i) = v"
    using range by (simp add: nth val to_int16_of_int sint_int16_of_int)
  have "v = clamp16 v" using range by (simp add: clamp16_id)
  also have "clamp16 v = spec_sample_binary64 T S samples i"
    by (simp add: spec_sample_binary64_def Let_def v_def yb_def frc_def i1_def idx_def r'_def
        ratio_of_def)
  finally have p1: "sint (out ! i) = spec_sample_binary64 T S samples i" by (simp only: sv)
  have spec: "spec_sample T S samples i = clamp16 (math_round Y)"
    by (simp add: spec_sample_def Y_def interp_at_def Let_def)
  have p4: "length samples \<le> 2 ^ 32
            \<longrightarrow> \<bar>sint (out ! i) - spec_sample T S samples i\<bar> \<le> 1
               \<and> (1 / 8 < frac (Y + 1 / 2) \<and> frac (Y + 1 / 2) < 7 / 8
                    \<longrightarrow> sint (out ! i) = spec_sample T S samples i)"
  proof (intro impI)
    assume len: "length samples \<le> 2 ^ 32"
    have near: "\<bar>yb - Y\<bar> \<le> 1 / 8"
      using interp_binary64_near [OF assms(2,3,4) i' len]
      by (simp add: Let_def yb_def Y_def frc_def i1_def idx_def r'_def)
    then have "\<bar>yb - Y\<bar> \<le> 1" by linarith
    then have "\<bar>v - math_round Y\<bar> \<le> 1" unfolding v_def by (rule math_round_close)
    moreover have "\<bar>v - clamp16 (math_round Y)\<bar> \<le> \<bar>v - math_round Y\<bar>"
      using range by (intro clamp16_close) simp_all
    ultimately have a: "\<bar>sint (out ! i) - spec_sample T S samples i\<bar> \<le> 1"
      unfolding sv spec by linarith
    have b: "1 / 8 < frac (Y + 1 / 2) \<and> frac (Y + 1 / 2) < 7 / 8
                    \<longrightarrow> sint (out ! i) = spec_sample T S samples i"
    proof (intro impI, elim conjE)
      assume t: "1 / 8 < frac (Y + 1 / 2)" "frac (Y + 1 / 2) < 7 / 8"
      have "v = math_round Y" unfolding v_def using near t by (rule math_round_same)
      then have "clamp16 (math_round Y) = v" using range by (simp add: clamp16_id)
      then show "sint (out ! i) = spec_sample T S samples i" by (simp only: sv spec)
    qed
    show "\<bar>sint (out ! i) - spec_sample T S samples i\<bar> \<le> 1
               \<and> (1 / 8 < frac (Y + 1 / 2) \<and> frac (Y + 1 / 2) < 7 / 8
                    \<longrightarrow> sint (out ! i) = spec_sample T S samples i)"
      using a b by (rule conjI)
  qed
  show ?thesis
    using p1 lo hi p4 by (simp add: idx_def r'_def ratio_of_def Y_def)
qed

text \<open>Doubling the rate of the two samples 0 and 100: the sample at index 1 is 50.\<close>

theorem resample_sample_formula_witness:
  "(24000::nat) \<noteq> 48000 \<and> (0::nat) < 24000 \<and> (0::nat) < 48000
   \<and> length [0, 100 :: int16] * 48000 < 2 ^ 51
   \<and> length [0, 100 :: int16] \<le> 2 ^ 32
   \<and> 1 / 8 < frac (interp_at [0, 100] (of_nat 1 / (of_nat 48000 / of_nat 24000)) + 1 / 2)
   \<and> frac (interp_at [0, 100] (of_nat 1 / (of_nat 48000 / of_nat 24000)) + 1 / 2) < 7 / 8
   \<and> (\<exists>out. resample_to 48000 24000 [0, 100] = Inr out \<and> 1 < length out
             \<and> sint (out ! 1) = 50
             \<and> spec_sample_binary64 48000 24000 [0, 100] 1 = 50
             \<and> spec_sample 48000 24000 [0, 100] 1 = 50)"
proof -
  define out where "out = map (\<lambda>i. to_int16 (interpolate (ratio_of 48000 24000) [0, 100] i))
                            [0..<newLen_of (ratio_of 48000 24000) (length [0, 100 :: int16])]"
  have h1: "(24000::nat) \<noteq> 48000" by simp
  have h2: "(0::nat) < 24000" by simp
  have h3: "(0::nat) < 48000" by simp
  have h4: "length [0, 100 :: int16] * 48000 < 2 ^ 51" by simp
  have h5: "resample_to 48000 24000 [0, 100] = Inr out"
    unfolding out_def by (rule resample_to_eq [OF h1 h2])
  have "length [0, 100 :: int16] = 2" by simp
  then have "length out = 4" by (simp only: out_def length_map length_upt ratio_doubling newLen_doubling)
  then have h6: "1 < length out" by simp
  have h7: "length [0, 100 :: int16] \<le> 2 ^ 32" by simp
  have h8: "1 / 8 < frac (interp_at [0, 100] (of_nat 1 / (of_nat 48000 / of_nat 24000)) + 1 / 2)
            \<and> frac (interp_at [0, 100] (of_nat 1 / (of_nat 48000 / of_nat 24000)) + 1 / 2) < 7 / 8"
    using interp_at_doubling frac_doubling by simp
  have all: "sint (out ! 1) = spec_sample_binary64 48000 24000 [0, 100] 1
             \<and> sint (out ! 1) = spec_sample 48000 24000 [0, 100] 1"
    using resample_sample_formula [OF h1 h2 h3 h4 h5 h6] h7 h8 by blast
  then have v: "sint (out ! 1) = 50" by (simp only: spec_sample_binary64_doubling)
  have "sint (out ! 1) = spec_sample 48000 24000 [0, 100] 1" using all by (rule conjunct2)
  then have "spec_sample 48000 24000 [0, 100] 1 = 50" using v by linarith
  then show ?thesis using h1 h2 h3 h4 h5 h6 h7 h8 v spec_sample_binary64_doubling by blast
qed

section \<open>Claim about the downmix\<close>






















end
